theory Spec2Isabelle
  imports Main "HOL-Library.Multiset" "HOL-Library.Word"
begin

section \<open>Basic types\<close>

text \<open>
  \<^verbatim>\<open>peer.ID\<close> and \<^verbatim>\<open>u.Key\<close> are Go strings. A Go panic and a Go \<^verbatim>\<open>error\<close>
  value are the two ways an operation fails; both are values of \<open>error\<close>.

  A Go \<^verbatim>\<open>int\<close> has 32 or 64 bits, by the platform, and its arithmetic wraps around.
  A counter of the program is a word \<open>'w word\<close> of any length \<open>'w\<close>, read as a
  signed number by \<open>sint\<close>; what is proved holds at both widths.
\<close>

type_synonym peerID = string
type_synonym key = string

datatype error = Panic string | Err string

text \<open>\<^verbatim>\<open>wantlist.Entry\<close>: a key with its priority (a Go \<^verbatim>\<open>int\<close>).\<close>

record Entry =
  Key :: key
  Priority :: int

section \<open>The priority queue container\<close>

text \<open>
  Modelled from the spec: the package \<^verbatim>\<open>thirdparty/pq\<close> (\<^verbatim>\<open>pq.New\<close>, \<^verbatim>\<open>Push\<close>,
  \<^verbatim>\<open>Pop\<close>, \<^verbatim>\<open>Len\<close>, \<^verbatim>\<open>Update(index)\<close>) is not among the sources. The spec
  describes both scheduler levels as priority queues ordered by a comparator, that are
  re-heapified at one element on \<^verbatim>\<open>Update\<close> and may be represented as binary heaps
  with an index back-pointer on each element; the queue's users implement
  \<^verbatim>\<open>Index\<close>/\<^verbatim>\<open>SetIndex\<close> for that back-pointer. The model is that binary heap, with
  the sift operations of Go's \<^verbatim>\<open>container/heap\<close>: an array of elements, the
  comparator read on the elements' current state, and \<^verbatim>\<open>SetIndex\<close> called on every
  element that is moved.

  The elements are references (addresses or peer ids) into a store \<open>'s\<close>; \<open>cmp\<close> reads
  the store and \<open>setIndex\<close> writes an element's index field.
\<close>

definition Swap ::
  "('s \<Rightarrow> 'a \<Rightarrow> int \<Rightarrow> 's) \<Rightarrow> 'a list \<times> 's \<Rightarrow> nat \<Rightarrow> nat \<Rightarrow> 'a list \<times> 's" where
  "Swap setIndex h i j =
     (case h of (q, st) \<Rightarrow>
        (q[i := q ! j, j := q ! i],
         setIndex (setIndex st (q ! j) (int i)) (q ! i) (int j)))"

text \<open>\<^verbatim>\<open>up(h, j)\<close>: the parent of \<open>j\<close> is \<open>(j - 1) / 2\<close>, which is \<open>0\<close> for \<open>j = 0\<close>.\<close>

function up ::
  "('s \<Rightarrow> 'a \<Rightarrow> 'a \<Rightarrow> bool) \<Rightarrow> ('s \<Rightarrow> 'a \<Rightarrow> int \<Rightarrow> 's) \<Rightarrow> 'a list \<times> 's \<Rightarrow> nat
     \<Rightarrow> 'a list \<times> 's" where
  "up cmp setIndex h j =
     (let i = (j - 1) div 2 in
      if i = j \<or> \<not> cmp (snd h) (fst h ! j) (fst h ! i) then h
      else up cmp setIndex (Swap setIndex h i j) i)"
  by pat_completeness auto
termination
  by (relation "measure (\<lambda>(cmp, setIndex, h, j). j)") auto

text \<open>
  \<^verbatim>\<open>down(h, i0, n)\<close>: \<open>child\<close> is the child of \<open>i\<close> the loop compares with, the
  right one when it exists and is less than the left one. The second component of the
  result is the position the element ends at.
\<close>

definition child :: "('s \<Rightarrow> 'a \<Rightarrow> 'a \<Rightarrow> bool) \<Rightarrow> 'a list \<times> 's \<Rightarrow> nat \<Rightarrow> nat \<Rightarrow> nat" where
  "child cmp h i n =
     (let j1 = 2 * i + 1
      in if j1 + 1 < n \<and> cmp (snd h) (fst h ! (j1 + 1)) (fst h ! j1) then j1 + 1 else j1)"

function down ::
  "('s \<Rightarrow> 'a \<Rightarrow> 'a \<Rightarrow> bool) \<Rightarrow> ('s \<Rightarrow> 'a \<Rightarrow> int \<Rightarrow> 's) \<Rightarrow> 'a list \<times> 's \<Rightarrow> nat \<Rightarrow> nat
     \<Rightarrow> ('a list \<times> 's) \<times> nat" where
  "down cmp setIndex h i n =
     (if 2 * i + 1 \<ge> n then (h, i)
      else if \<not> cmp (snd h) (fst h ! child cmp h i n) (fst h ! i) then (h, i)
      else down cmp setIndex (Swap setIndex h i (child cmp h i n)) (child cmp h i n) n)"
  by pat_completeness auto
termination
  by (relation "measure (\<lambda>(cmp, setIndex, h, i, n). n - i)")
     (auto simp: child_def Let_def split: if_splits)

text \<open>\<^verbatim>\<open>Len\<close>, \<^verbatim>\<open>Push\<close> (append, set the index, sift up).\<close>

definition pq_Len :: "'a list \<times> 's \<Rightarrow> nat" where
  "pq_Len h = length (fst h)"

definition pq_Push ::
  "('s \<Rightarrow> 'a \<Rightarrow> 'a \<Rightarrow> bool) \<Rightarrow> ('s \<Rightarrow> 'a \<Rightarrow> int \<Rightarrow> 's) \<Rightarrow> 'a list \<times> 's \<Rightarrow> 'a
     \<Rightarrow> 'a list \<times> 's" where
  "pq_Push cmp setIndex h x =
     (case h of (q, st) \<Rightarrow>
        up cmp setIndex (q @ [x], setIndex st x (int (length q))) (length q))"

text \<open>
  \<^verbatim>\<open>Pop\<close>: swap the root with the last element, sift the new root down in the first
  \<open>n - 1\<close> positions, and take the last element off, its index set to \<open>-1\<close>. On an
  empty queue Go panics (index out of range); the callers check \<^verbatim>\<open>Len\<close> first.
\<close>

definition pq_Pop ::
  "('s \<Rightarrow> 'a \<Rightarrow> 'a \<Rightarrow> bool) \<Rightarrow> ('s \<Rightarrow> 'a \<Rightarrow> int \<Rightarrow> 's) \<Rightarrow> 'a list \<times> 's
     \<Rightarrow> error + ('a \<times> 'a list \<times> 's)" where
  "pq_Pop cmp setIndex h =
     (if fst h = [] then Inl (Panic ''index out of range'')
      else
        let n = length (fst h) - 1;
            h2 = fst (down cmp setIndex (Swap setIndex h 0 n) 0 n);
            x = last (fst h2)
        in Inr (x, butlast (fst h2), setIndex (snd h2) x (- 1)))"

text \<open>
  \<^verbatim>\<open>Update(index)\<close> is \<^verbatim>\<open>heap.Fix\<close>: sift down, and up if the element did not move.
  With an index outside the array, \<^verbatim>\<open>down\<close> stops at once and \<^verbatim>\<open>up\<close> compares the
  element with its parent, which panics unless the index is its own parent
  (\<open>0\<close>, and \<open>-1\<close> by Go's truncating division).
\<close>

definition pq_Update ::
  "('s \<Rightarrow> 'a \<Rightarrow> 'a \<Rightarrow> bool) \<Rightarrow> ('s \<Rightarrow> 'a \<Rightarrow> int \<Rightarrow> 's) \<Rightarrow> 'a list \<times> 's \<Rightarrow> int
     \<Rightarrow> error + 'a list \<times> 's" where
  "pq_Update cmp setIndex h i =
     (if 0 \<le> i \<and> nat i < length (fst h) then
        (case down cmp setIndex h (nat i) (length (fst h)) of
           (h', i') \<Rightarrow> if i' > nat i then Inr h' else Inr (up cmp setIndex h' (nat i)))
      else if i = 0 \<or> i = - 1 then Inr h
      else Inl (Panic ''index out of range''))"

section \<open>Tasks and partners\<close>

text \<open>
  \<^verbatim>\<open>peerRequestTask\<close>. The \<^verbatim>\<open>Done\<close> callback is the operation \<open>Done\<close> below;
  \<open>created\<close> is the reading of the clock at \<^verbatim>\<open>Push\<close>.
\<close>

record peerRequestTask =
  Entry :: Entry
  Target :: peerID
  trash :: bool
  created :: nat
  index :: int

text \<open>
  \<^verbatim>\<open>activePartner\<close>. The task queue holds pointers to tasks: addresses into the store
  of tasks of the queue below.
\<close>

record (overloaded) ('w::len) activePartner =
  active :: "'w word"
  activeBlocks :: "key set"
  requests :: "'w word"
  index :: int
  taskQueue :: "nat list"

definition taskKey :: "peerID \<Rightarrow> key \<Rightarrow> string" where
  "taskKey p k = p @ k"

definition task_Key :: "peerRequestTask \<Rightarrow> string" where
  "task_Key t = taskKey (Target t) (Key (Entry t))"

definition FIFO :: "peerRequestTask \<Rightarrow> peerRequestTask \<Rightarrow> bool" where
  "FIFO a b = (created a < created b)"

definition V1 :: "peerRequestTask \<Rightarrow> peerRequestTask \<Rightarrow> bool" where
  "V1 a b =
     (if Target a = Target b then Priority (Entry a) > Priority (Entry b)
      else FIFO a b)"

text \<open>\<^verbatim>\<open>wrapCmp\<close>: the comparator on the queue's elements, here addresses of tasks.\<close>

definition wrapCmp ::
  "(peerRequestTask \<Rightarrow> peerRequestTask \<Rightarrow> bool)
     \<Rightarrow> (nat \<rightharpoonup> peerRequestTask) \<Rightarrow> nat \<Rightarrow> nat \<Rightarrow> bool" where
  "wrapCmp f st a b =
     (case (st a, st b) of (Some x, Some y) \<Rightarrow> f x y | _ \<Rightarrow> False)"

definition task_SetIndex ::
  "(nat \<rightharpoonup> peerRequestTask) \<Rightarrow> nat \<Rightarrow> int \<Rightarrow> (nat \<rightharpoonup> peerRequestTask)" where
  "task_SetIndex st a i =
     (case st a of None \<Rightarrow> st | Some t \<Rightarrow> st(a \<mapsto> t\<lparr>peerRequestTask.index := i\<rparr>))"

definition newActivePartner :: "'w::len activePartner" where
  "newActivePartner =
     \<lparr>active = 0, activeBlocks = {}, requests = 0, index = 0, taskQueue = []\<rparr>"

definition partnerCompare :: "'w::len activePartner \<Rightarrow> 'w activePartner \<Rightarrow> bool" where
  "partnerCompare pa pb =
     (if requests pa = 0 then False
      else if requests pb = 0 then True
      else sint (active pa) < sint (active pb))"

text \<open>The outer queue holds pointers to partners; a partner is identified by its peer.\<close>

definition partnerLess :: "(peerID \<rightharpoonup> 'w::len activePartner) \<Rightarrow> peerID \<Rightarrow> peerID \<Rightarrow> bool" where
  "partnerLess st a b =
     (case (st a, st b) of (Some pa, Some pb) \<Rightarrow> partnerCompare pa pb | _ \<Rightarrow> False)"

definition partner_SetIndex ::
  "(peerID \<rightharpoonup> 'w::len activePartner) \<Rightarrow> peerID \<Rightarrow> int \<Rightarrow> (peerID \<rightharpoonup> 'w activePartner)" where
  "partner_SetIndex st p i =
     (case st p of None \<Rightarrow> st | Some pr \<Rightarrow> st(p \<mapsto> pr\<lparr>activePartner.index := i\<rparr>))"

definition StartTask :: "key \<Rightarrow> 'w::len activePartner \<Rightarrow> 'w activePartner" where
  "StartTask k p = p\<lparr>activeBlocks := insert k (activeBlocks p), active := active p + 1\<rparr>"

definition TaskDone :: "key \<Rightarrow> 'w::len activePartner \<Rightarrow> error + 'w activePartner" where
  "TaskDone k p =
     (let p' = p\<lparr>activeBlocks := activeBlocks p - {k}, active := active p - 1\<rparr>
      in if sint (active p') < 0 then Inl (Panic ''more tasks finished than started!'')
         else Inr p')"

section \<open>The peer request queue\<close>

text \<open>
  \<^verbatim>\<open>prq\<close>. \<open>tasks\<close> is the memory the task pointers of \<open>taskMap\<close> and of the
  partners' queues point into, and \<open>fresh\<close> the next address to allocate; a partner
  object is allocated once per peer, so \<open>partners\<close> is its memory. The mutex, held for
  the whole of each operation, makes the operations atomic.
\<close>

record (overloaded) ('w::len) prq =
  pQueue :: "peerID list"
  taskMap :: "string \<rightharpoonup> nat"
  partners :: "peerID \<rightharpoonup> 'w activePartner"
  tasks :: "nat \<rightharpoonup> peerRequestTask"
  fresh :: nat

definition newPRQ :: "'w::len prq" where
  "newPRQ =
     \<lparr>pQueue = [], taskMap = Map.empty, partners = Map.empty, tasks = Map.empty, fresh = 0\<rparr>"

definition nilPanic :: error where
  "nilPanic = Panic ''invalid memory address or nil pointer dereference''"

text \<open>
  The first statements of \<^verbatim>\<open>Push\<close>: the partner of \<open>to\<close>, made and pushed on the
  outer queue when the peer has none yet.
\<close>

definition addPartner :: "peerID \<Rightarrow> 'w::len prq \<Rightarrow> 'w prq" where
  "addPartner to s =
     (case partners s to of
        Some _ \<Rightarrow> s
      | None \<Rightarrow>
          (case pq_Push partnerLess partner_SetIndex
                  (pQueue s, (partners s)(to \<mapsto> newActivePartner)) to of
             (q, ps) \<Rightarrow> s\<lparr>pQueue := q, partners := ps\<rparr>))"

text \<open>
  \<^verbatim>\<open>Push(entry, to)\<close>; \<open>now\<close> is \<^verbatim>\<open>time.Now()\<close>. The result is the queue after
  the call, or the panic that ends it.
\<close>

definition Push :: "Entry \<Rightarrow> peerID \<Rightarrow> nat \<Rightarrow> 'w::len prq \<Rightarrow> error + 'w prq" where
  "Push entry to now s0 =
     (let s = addPartner to s0
      in
      case partners s to of
        None \<Rightarrow> Inl nilPanic
      | Some partner \<Rightarrow>
          (case taskMap s (taskKey to (Key entry)) of
             Some a \<Rightarrow>
               (case tasks s a of
                  None \<Rightarrow> Inl nilPanic
                | Some task \<Rightarrow>
                    (case pq_Update (wrapCmp V1) task_SetIndex
                            (taskQueue partner,
                             (tasks s)(a \<mapsto> task\<lparr>Entry := (Entry task)\<lparr>Priority := Priority entry\<rparr>\<rparr>))
                            (peerRequestTask.index task) of
                       Inl e \<Rightarrow> Inl e
                     | Inr (q, ts) \<Rightarrow>
                         Inr (s\<lparr>partners := (partners s)(to \<mapsto> partner\<lparr>taskQueue := q\<rparr>),
                                 tasks := ts\<rparr>)))
           | None \<Rightarrow>
               if Key entry \<in> activeBlocks partner then Inr s
               else
                 (let a = fresh s;
                      task = \<lparr>Entry = entry, Target = to, trash = False, created = now,
                              peerRequestTask.index = 0\<rparr>
                  in case pq_Push (wrapCmp V1) task_SetIndex
                            (taskQueue partner, (tasks s)(a \<mapsto> task)) a of
                       (q, ts) \<Rightarrow>
                         (let partner' = partner\<lparr>taskQueue := q, requests := requests partner + 1\<rparr>
                          in case pq_Update partnerLess partner_SetIndex
                                    (pQueue s, (partners s)(to \<mapsto> partner'))
                                    (activePartner.index partner') of
                               Inl e \<Rightarrow> Inl e
                             | Inr (pq, ps) \<Rightarrow>
                                 Inr (s\<lparr>pQueue := pq, partners := ps,
                                         taskMap := (taskMap s)(task_Key task \<mapsto> a),
                                         tasks := ts, fresh := Suc a\<rparr>)))))"

text \<open>
  \<^verbatim>\<open>Remove(k, p)\<close>. \<^verbatim>\<open>tl.partners[p]\<close> is nil when the peer has no partner, and
  the decrement then panics.
\<close>

definition Remove :: "key \<Rightarrow> peerID \<Rightarrow> 'w::len prq \<Rightarrow> error + 'w prq" where
  "Remove k p s =
     (case taskMap s (taskKey p k) of
        None \<Rightarrow> Inr s
      | Some a \<Rightarrow>
          (case tasks s a of
             None \<Rightarrow> Inl nilPanic
           | Some t \<Rightarrow>
               (case partners s p of
                  None \<Rightarrow> Inl nilPanic
                | Some partner \<Rightarrow>
                    Inr (s\<lparr>tasks := (tasks s)(a \<mapsto> t\<lparr>trash := True\<rparr>),
                            partners := (partners s)(p \<mapsto> partner\<lparr>requests := requests partner - 1\<rparr>)\<rparr>))))"

text \<open>
  The recursive equations of the sift loops are unfolded by hand, not by the simplifier.
  The container's operations keep the length of the array (one more on \<open>pq_Push\<close>, one
  less on \<open>pq_Pop\<close>), which the loop of \<open>Pop\<close> needs to end.
\<close>

declare up.simps [simp del] down.simps [simp del]

lemma length_Swap: "length (fst (Swap setIndex h i j)) = length (fst h)"
  by (simp add: Swap_def split: prod.splits)

lemma length_up: "length (fst (up cmp setIndex h j)) = length (fst h)"
proof (induction cmp setIndex h j rule: up.induct)
  case (1 cmp setIndex h j)
  show ?case
    by (subst up.simps) (simp add: Let_def 1 length_Swap)
qed

lemma length_down: "length (fst (fst (down cmp setIndex h i n))) = length (fst h)"
proof (induction cmp setIndex h i n rule: down.induct)
  case (1 cmp setIndex h i n)
  show ?case
    by (subst down.simps) (simp add: Let_def 1 length_Swap)
qed

lemma length_pq_Pop:
  assumes "pq_Pop cmp setIndex h = Inr (x, h')"
  shows "Suc (length (fst h')) = length (fst h)"
proof -
  from assms have ne: "fst h \<noteq> []"
    by (auto simp: pq_Pop_def split: if_splits)
  from assms ne have
    "fst h' = butlast (fst (fst (down cmp setIndex (Swap setIndex h 0 (length (fst h) - 1)) 0
                                   (length (fst h) - 1))))"
    by (auto simp: pq_Pop_def Let_def)
  then have "length (fst h') = length (fst h) - 1"
    by (simp add: length_down length_Swap)
  with ne show ?thesis
    by (cases "fst h") auto
qed

text \<open>
  The loop of \<^verbatim>\<open>Pop\<close> on the popped partner's task queue: the loop's variables are
  the queue with the memory of the tasks, and the task map. It ends with the first task
  that is not trash (\<open>Some\<close> of its address and contents), or with \<open>None\<close> on an
  empty queue.
\<close>

function drain ::
  "nat list \<times> (nat \<rightharpoonup> peerRequestTask) \<Rightarrow> (string \<rightharpoonup> nat)
     \<Rightarrow> error + ((nat \<times> peerRequestTask) option \<times> (nat list \<times> (nat \<rightharpoonup> peerRequestTask))
                  \<times> (string \<rightharpoonup> nat))" where
  "drain h tm =
     (if pq_Len h > 0 then
        (case pq_Pop (wrapCmp V1) task_SetIndex h of
           Inl e \<Rightarrow> Inl e
         | Inr (a, h') \<Rightarrow>
             (case snd h' a of
                None \<Rightarrow> Inl nilPanic
              | Some out \<Rightarrow>
                  if trash out then drain h' (tm(task_Key out := None))
                  else Inr (Some (a, out), h', tm(task_Key out := None))))
      else Inr (None, h, tm))"
  by pat_completeness auto
termination
proof (relation "measure (\<lambda>(h, tm). length (fst h))")
  show "wf (measure (\<lambda>(h, tm). length (fst h)))"
    by simp
next
  fix h :: "nat list \<times> (nat \<rightharpoonup> peerRequestTask)" and tm :: "string \<rightharpoonup> nat"
    and x a h' out
  assume "pq_Pop (wrapCmp V1) task_SetIndex h = Inr x" and "(a, h') = x"
  then have "Suc (length (fst h')) = length (fst h)"
    using length_pq_Pop [of "wrapCmp V1" task_SetIndex h a h'] by simp
  then show "((h', tm(task_Key out := None)), (h, tm)) \<in> measure (\<lambda>(h, tm). length (fst h))"
    by simp
qed

declare drain.simps [simp del]

text \<open>
  \<^verbatim>\<open>Pop()\<close>: the result is the task returned (its address, \<open>None\<close> for nil) and
  the queue after the call. \<^verbatim>\<open>StartTask\<close> and the decrement of \<open>requests\<close> are the
  last statements of the loop's final iteration.
\<close>

definition Pop :: "'w::len prq \<Rightarrow> error + (nat option \<times> 'w prq)" where
  "Pop s =
     (if pq_Len (pQueue s, partners s) = 0 then Inr (None, s)
      else
        (case pq_Pop partnerLess partner_SetIndex (pQueue s, partners s) of
           Inl e \<Rightarrow> Inl e
         | Inr (p, pq, ps) \<Rightarrow>
             (case ps p of
                None \<Rightarrow> Inl nilPanic
              | Some partner \<Rightarrow>
                  (case drain (taskQueue partner, tasks s) (taskMap s) of
                     Inl e \<Rightarrow> Inl e
                   | Inr (out, (q, ts), tm) \<Rightarrow>
                       (let partner' =
                          (case out of
                             None \<Rightarrow> partner\<lparr>taskQueue := q\<rparr>
                           | Some (a, t) \<Rightarrow>
                               (let started = StartTask (Key (Entry t)) (partner\<lparr>taskQueue := q\<rparr>)
                                in started\<lparr>requests := requests started - 1\<rparr>))
                        in case pq_Push partnerLess partner_SetIndex (pq, ps(p \<mapsto> partner')) p of
                             (pq', ps') \<Rightarrow>
                               Inr (map_option fst out,
                                    s\<lparr>pQueue := pq', partners := ps', taskMap := tm,
                                      tasks := ts\<rparr>))))))"

text \<open>
  The \<^verbatim>\<open>Done\<close> callback of the task at address \<open>a\<close>: the closure holds the partner of
  the task's target and the key of its entry.
\<close>

definition Done :: "nat \<Rightarrow> 'w::len prq \<Rightarrow> error + 'w prq" where
  "Done a s =
     (case tasks s a of
        None \<Rightarrow> Inl nilPanic
      | Some t \<Rightarrow>
          (case partners s (Target t) of
             None \<Rightarrow> Inl nilPanic
           | Some partner \<Rightarrow>
               (case TaskDone (Key (Entry t)) partner of
                  Inl e \<Rightarrow> Inl e
                | Inr partner' \<Rightarrow>
                    (case pq_Update partnerLess partner_SetIndex
                            (pQueue s, (partners s)(Target t \<mapsto> partner'))
                            (activePartner.index partner') of
                       Inl e \<Rightarrow> Inl e
                     | Inr (pq, ps) \<Rightarrow> Inr (s\<lparr>pQueue := pq, partners := ps\<rparr>)))))"

text \<open>Sequences of operations on a queue, run until the first panic.\<close>

datatype operation = OpPush Entry peerID nat | OpPop | OpRemove key peerID | OpDone nat

fun step :: "operation \<Rightarrow> 'w::len prq \<Rightarrow> error + 'w prq" where
  "step (OpPush entry to now) s = Push entry to now s"
| "step OpPop s = (case Pop s of Inl e \<Rightarrow> Inl e | Inr (out, s') \<Rightarrow> Inr s')"
| "step (OpRemove k p) s = Remove k p s"
| "step (OpDone a) s = Done a s"

fun run :: "operation list \<Rightarrow> 'w::len prq \<Rightarrow> error + 'w prq" where
  "run [] s = Inr s"
| "run (x # xs) s = (case step x s of Inl e \<Rightarrow> Inl e | Inr s' \<Rightarrow> run xs s')"

section \<open>Properties of the container\<close>

subsection \<open>The container keeps its elements\<close>

lemma mset_Swap:
  "i < length (fst h) \<Longrightarrow> j < length (fst h) \<Longrightarrow> mset (fst (Swap setIndex h i j)) = mset (fst h)"
  by (cases h) (simp add: Swap_def mset_swap)

lemma mset_up: "j < length (fst h) \<Longrightarrow> mset (fst (up cmp setIndex h j)) = mset (fst h)"
proof (induction cmp setIndex h j rule: up.induct)
  case (1 cmp setIndex h j)
  let ?i = "(j - 1) div 2"
  have i: "?i < length (fst h)" using 1(2) by simp
  show ?case
  proof (cases "?i = j \<or> \<not> cmp (snd h) (fst h ! j) (fst h ! ?i)")
    case True
    then show ?thesis by (subst up.simps) (simp add: Let_def)
  next
    case False
    have "mset (fst (up cmp setIndex (Swap setIndex h ?i j) ?i)) = mset (fst (Swap setIndex h ?i j))"
      using False i by (intro 1(1)) (auto simp: length_Swap)
    then show ?thesis
      using False i 1(2) by (subst up.simps) (simp add: Let_def mset_Swap)
  qed
qed

lemma child_bounds: "2 * i + 1 < n \<Longrightarrow> i < child cmp h i n \<and> child cmp h i n < n"
  by (auto simp: child_def Let_def)

lemma mset_down:
  "n \<le> length (fst h) \<Longrightarrow> mset (fst (fst (down cmp setIndex h i n))) = mset (fst h)"
proof (induction cmp setIndex h i n rule: down.induct)
  case (1 cmp setIndex h i n)
  let ?j = "child cmp h i n"
  show ?case
  proof (cases "n \<le> 2 * i + 1 \<or> \<not> cmp (snd h) (fst h ! ?j) (fst h ! i)")
    case True
    then show ?thesis by (subst down.simps) auto
  next
    case False
    then have j: "i < ?j" "?j < n" using child_bounds [of i n cmp h] by auto
    have "mset (fst (fst (down cmp setIndex (Swap setIndex h i ?j) ?j n)))
            = mset (fst (Swap setIndex h i ?j))"
      using False 1(2) by (intro 1(1)) (auto simp: length_Swap)
    also have "\<dots> = mset (fst h)"
      using j 1(2) by (intro mset_Swap) auto
    finally show ?thesis
      using False by (subst down.simps) simp
  qed
qed

lemma mset_pq_Push: "mset (fst (pq_Push cmp setIndex h x)) = add_mset x (mset (fst h))"
  by (cases h) (simp add: pq_Push_def mset_up)

lemma mset_pq_Pop:
  assumes "pq_Pop cmp setIndex h = Inr (x, h')"
  shows "add_mset x (mset (fst h')) = mset (fst h)"
proof -
  let ?n = "length (fst h) - 1"
  let ?h2 = "fst (down cmp setIndex (Swap setIndex h 0 ?n) 0 ?n)"
  from assms have ne: "fst h \<noteq> []"
    by (auto simp: pq_Pop_def split: if_splits)
  then have n: "?n < length (fst h)" by (cases "fst h") auto
  from assms ne have x: "x = last (fst ?h2)" and h': "fst h' = butlast (fst ?h2)"
    by (auto simp: pq_Pop_def Let_def)
  have "0 < length (fst h)" using ne by simp
  then have m: "mset (fst ?h2) = mset (fst h)"
    using n by (simp add: mset_down length_Swap mset_Swap)
  then have "fst ?h2 \<noteq> []" using ne by auto
  then have "add_mset (last (fst ?h2)) (mset (butlast (fst ?h2))) = mset (fst ?h2)"
    by (metis append_butlast_last_id mset.simps(2) mset_append union_mset_add_mset_right
          add.right_neutral mset.simps(1))
  with x h' m show ?thesis by simp
qed

lemma pq_Pop_nonempty: "fst h \<noteq> [] \<Longrightarrow> \<exists>x h'. pq_Pop cmp setIndex h = Inr (x, h')"
  by (simp add: pq_Pop_def Let_def)

lemma mset_pq_Update:
  assumes "pq_Update cmp setIndex h i = Inr h'"
  shows "mset (fst h') = mset (fst h)"
proof (cases "0 \<le> i \<and> nat i < length (fst h)")
  case True
  obtain g k where d: "down cmp setIndex h (nat i) (length (fst h)) = (g, k)"
    by (cases "down cmp setIndex h (nat i) (length (fst h))")
  have g: "mset (fst g) = mset (fst h)" "length (fst g) = length (fst h)"
    using mset_down [of "length (fst h)" h cmp setIndex "nat i"]
          length_down [of cmp setIndex h "nat i" "length (fst h)"] d by auto
  from assms True d have "h' = g \<or> h' = up cmp setIndex g (nat i)"
    by (auto simp: pq_Update_def split: if_splits)
  with g True show ?thesis by (auto simp: mset_up)
next
  case False
  with assms show ?thesis by (auto simp: pq_Update_def split: if_splits)
qed

lemma pq_Update_in_range:
  "0 \<le> i \<Longrightarrow> nat i < length (fst h) \<Longrightarrow> \<exists>h'. pq_Update cmp setIndex h i = Inr h'"
  by (auto simp: pq_Update_def split: prod.splits)

definition indexed :: "('s \<Rightarrow> 'a \<Rightarrow> int option) \<Rightarrow> 'a list \<times> 's \<Rightarrow> bool" where
  "indexed get h =
     (distinct (fst h) \<and> (\<forall>i < length (fst h). get (snd h) (fst h ! i) = Some (int i)))"

subsection \<open>What the container does to the store\<close>

lemma set_Swap:
  "i < length (fst h) \<Longrightarrow> j < length (fst h) \<Longrightarrow> set (fst (Swap setIndex h i j)) = set (fst h)"
  using mset_Swap [of i h j setIndex] by (metis set_mset_mset)

lemma Swap_store:
  assumes "P (snd h)" and "set (fst h) \<subseteq> A" and "i < length (fst h)" and "j < length (fst h)"
    and "\<And>st x i. x \<in> A \<Longrightarrow> P st \<Longrightarrow> P (setIndex st x i)"
  shows "P (snd (Swap setIndex h i j))"
proof -
  obtain q st where hq: "h = (q, st)" by (cases h)
  have "q ! i \<in> A" "q ! j \<in> A"
    using assms(2-4) hq by (auto dest: nth_mem)
  then show ?thesis
    using assms(1,5) hq by (simp add: Swap_def)
qed

lemma up_store:
  "P (snd h) \<Longrightarrow> set (fst h) \<subseteq> A \<Longrightarrow> j < length (fst h) \<Longrightarrow>
   (\<And>st x i. x \<in> A \<Longrightarrow> P st \<Longrightarrow> P (setIndex st x i)) \<Longrightarrow>
   P (snd (up cmp setIndex h j))"
proof (induction cmp setIndex h j rule: up.induct)
  case (1 cmp setIndex h j)
  let ?i = "(j - 1) div 2"
  have i: "?i < length (fst h)" using 1(4) by simp
  show ?case
  proof (cases "?i = j \<or> \<not> cmp (snd h) (fst h ! j) (fst h ! ?i)")
    case True
    then show ?thesis using 1(2) by (subst up.simps) (simp add: Let_def)
  next
    case False
    have p: "P (snd (Swap setIndex h ?i j))"
      using 1(2,3) i 1(4,5) by (rule Swap_store)
    have a: "set (fst (Swap setIndex h ?i j)) \<subseteq> A"
      using 1(3) i 1(4) by (simp add: set_Swap)
    have l: "?i < length (fst (Swap setIndex h ?i j))"
      using i by (simp add: length_Swap)
    have "P (snd (up cmp setIndex (Swap setIndex h ?i j) ?i))"
      by (rule 1(1) [OF refl False p a l 1(5)])
    then show ?thesis
      using False by (subst up.simps) (simp add: Let_def)
  qed
qed

lemma down_store:
  "P (snd h) \<Longrightarrow> set (fst h) \<subseteq> A \<Longrightarrow> n \<le> length (fst h) \<Longrightarrow>
   (\<And>st x i. x \<in> A \<Longrightarrow> P st \<Longrightarrow> P (setIndex st x i)) \<Longrightarrow>
   P (snd (fst (down cmp setIndex h i n)))"
proof (induction cmp setIndex h i n rule: down.induct)
  case (1 cmp setIndex h i n)
  let ?j = "child cmp h i n"
  show ?case
  proof (cases "n \<le> 2 * i + 1 \<or> \<not> cmp (snd h) (fst h ! ?j) (fst h ! i)")
    case True
    then show ?thesis using 1(2) by (subst down.simps) auto
  next
    case False
    then have c: "\<not> n \<le> 2 * i + 1" "\<not> \<not> cmp (snd h) (fst h ! ?j) (fst h ! i)" by auto
    then have j: "i < ?j" "?j < n" using child_bounds [of i n cmp h] by auto
    have il: "i < length (fst h)" and jl: "?j < length (fst h)"
      using j 1(4) by auto
    have p: "P (snd (Swap setIndex h i ?j))"
      using 1(2,3) il jl 1(5) by (rule Swap_store)
    have a: "set (fst (Swap setIndex h i ?j)) \<subseteq> A"
      using 1(3) il jl by (simp add: set_Swap)
    have l: "n \<le> length (fst (Swap setIndex h i ?j))"
      using 1(4) by (simp add: length_Swap)
    have "P (snd (fst (down cmp setIndex (Swap setIndex h i ?j) ?j n)))"
      by (rule 1(1) [OF c p a l 1(5)])
    then show ?thesis
      using False by (subst down.simps) simp
  qed
qed

lemma pq_Push_store:
  assumes "P (snd h)" and step: "\<And>st y i. y \<in> insert x (set (fst h)) \<Longrightarrow> P st \<Longrightarrow> P (setIndex st y i)"
  shows "P (snd (pq_Push cmp setIndex h x))"
proof -
  obtain q st where hq: "h = (q, st)" by (cases h)
  let ?g = "(q @ [x], setIndex st x (int (length q)))"
  have "P (snd ?g)"
    using assms hq by simp
  moreover have "set (fst ?g) \<subseteq> insert x (set (fst h))" "length q < length (fst ?g)"
    using hq by auto
  ultimately have "P (snd (up cmp setIndex ?g (length q)))"
    using step by (rule up_store)
  then show ?thesis by (simp add: hq pq_Push_def)
qed

lemma pq_Pop_store:
  assumes pop: "pq_Pop cmp setIndex h = Inr (x, h')" and "P (snd h)"
    and step: "\<And>st y i. y \<in> set (fst h) \<Longrightarrow> P st \<Longrightarrow> P (setIndex st y i)"
  shows "P (snd h')"
proof -
  let ?n = "length (fst h) - 1"
  let ?h1 = "Swap setIndex h 0 ?n"
  let ?h2 = "fst (down cmp setIndex ?h1 0 ?n)"
  from pop have ne: "fst h \<noteq> []"
    by (auto simp: pq_Pop_def split: if_splits)
  then have n: "0 < length (fst h)" "?n < length (fst h)" by (cases "fst h", auto)+
  from pop ne have h': "snd h' = setIndex (snd ?h2) x (- 1)" and x: "x = last (fst ?h2)"
    by (auto simp: pq_Pop_def Let_def)
  have p1: "P (snd ?h1)"
    using assms(2) subset_refl n step by (rule Swap_store)
  have s1: "set (fst ?h1) \<subseteq> set (fst h)" "?n \<le> length (fst ?h1)"
    using n by (simp_all add: set_Swap length_Swap)
  have p2: "P (snd ?h2)"
    using p1 s1 step by (rule down_store)
  have "mset (fst ?h2) = mset (fst h)"
    using n by (simp add: mset_down length_Swap mset_Swap)
  then have "set (fst ?h2) = set (fst h)" "fst ?h2 \<noteq> []"
    using ne by (metis set_mset_mset, auto)
  then have "x \<in> set (fst h)"
    using x by (metis last_in_set)
  then show ?thesis
    unfolding h' using p2 by (rule step)
qed

lemma pq_Update_store:
  assumes "pq_Update cmp setIndex h i = Inr h'" and "P (snd h)"
    and step: "\<And>st y i. y \<in> set (fst h) \<Longrightarrow> P st \<Longrightarrow> P (setIndex st y i)"
  shows "P (snd h')"
proof (cases "0 \<le> i \<and> nat i < length (fst h)")
  case True
  obtain g k where d: "down cmp setIndex h (nat i) (length (fst h)) = (g, k)"
    by (cases "down cmp setIndex h (nat i) (length (fst h))")
  have "P (snd (fst (down cmp setIndex h (nat i) (length (fst h)))))"
    using assms(2) subset_refl le_refl step by (rule down_store)
  then have g: "P (snd g)" using d by simp
  have "mset (fst g) = mset (fst h)"
    using mset_down [of "length (fst h)" h cmp setIndex "nat i"] d by simp
  then have "set (fst g) \<subseteq> set (fst h)" "nat i < length (fst g)"
    using True by (metis set_mset_mset subset_refl, metis size_mset)
  with g have u: "P (snd (up cmp setIndex g (nat i)))"
    using step by (rule up_store)
  from assms(1) True d have "h' = g \<or> h' = up cmp setIndex g (nat i)"
    by (auto simp: pq_Update_def split: if_splits)
  with g u show ?thesis by blast
next
  case False
  with assms show ?thesis by (auto simp: pq_Update_def split: if_splits)
qed

subsection \<open>The index back-pointers\<close>

lemma Swap_indexed:
  assumes h: "indexed get h" and i: "i < length (fst h)" and j: "j < length (fst h)"
    and law: "\<And>st x i y. get st x \<noteq> None \<Longrightarrow>
                get (setIndex st x i) y = (if y = x then Some i else get st y)"
  shows "indexed get (Swap setIndex h i j)"
proof -
  obtain q st where hq: "h = (q, st)" by (cases h)
  from h hq have d: "distinct q" and ix: "\<And>k. k < length q \<Longrightarrow> get st (q ! k) = Some (int k)"
    by (auto simp: indexed_def)
  let ?q = "q[i := q ! j, j := q ! i]"
  let ?st1 = "setIndex st (q ! j) (int i)"
  let ?st = "setIndex ?st1 (q ! i) (int j)"
  from i j hq have i': "i < length q" and j': "j < length q" by auto
  have d': "distinct ?q" using d i' j' by (simp add: distinct_swap)
  have g1: "\<And>y. get ?st1 y = (if y = q ! j then Some (int i) else get st y)"
    using law [of st "q ! j"] ix [OF j'] by simp
  have "get ?st1 (q ! i) \<noteq> None" using g1 ix [OF i'] by simp
  then have g2: "\<And>y. get ?st y = (if y = q ! i then Some (int j) else get ?st1 y)"
    using law [of ?st1 "q ! i"] by simp
  have "get ?st (?q ! k) = Some (int k)" if k: "k < length q" for k
  proof -
    have neq: "\<And>a b. a < length q \<Longrightarrow> b < length q \<Longrightarrow> (q ! a = q ! b) = (a = b)"
      using d by (simp add: nth_eq_iff_index_eq)
    show ?thesis
      using k i' j' ix [OF k] ix [OF i'] ix [OF j']
      by (auto simp: g1 g2 nth_list_update neq)
  qed
  with d' hq show ?thesis by (simp add: indexed_def Swap_def)
qed

lemma up_indexed:
  "indexed get h \<Longrightarrow> j < length (fst h) \<Longrightarrow>
   (\<And>st x i y. get st x \<noteq> None \<Longrightarrow>
       get (setIndex st x i) y = (if y = x then Some i else get st y)) \<Longrightarrow>
   indexed get (up cmp setIndex h j)"
proof (induction cmp setIndex h j rule: up.induct)
  case (1 cmp setIndex h j)
  let ?i = "(j - 1) div 2"
  have i: "?i < length (fst h)" using 1(3) by simp
  show ?case
  proof (cases "?i = j \<or> \<not> cmp (snd h) (fst h ! j) (fst h ! ?i)")
    case True
    then show ?thesis using 1(2) by (subst up.simps) (simp add: Let_def)
  next
    case False
    have s: "indexed get (Swap setIndex h ?i j)"
      using 1(2) i 1(3) 1(4) by (rule Swap_indexed)
    have l: "?i < length (fst (Swap setIndex h ?i j))"
      using i by (simp add: length_Swap)
    have "indexed get (up cmp setIndex (Swap setIndex h ?i j) ?i)"
      by (rule 1(1) [OF refl False s l 1(4)])
    then show ?thesis
      using False by (subst up.simps) (simp add: Let_def)
  qed
qed

lemma down_indexed:
  "indexed get h \<Longrightarrow> n \<le> length (fst h) \<Longrightarrow>
   (\<And>st x i y. get st x \<noteq> None \<Longrightarrow>
       get (setIndex st x i) y = (if y = x then Some i else get st y)) \<Longrightarrow>
   indexed get (fst (down cmp setIndex h i n))"
proof (induction cmp setIndex h i n rule: down.induct)
  case (1 cmp setIndex h i n)
  let ?j = "child cmp h i n"
  show ?case
  proof (cases "n \<le> 2 * i + 1 \<or> \<not> cmp (snd h) (fst h ! ?j) (fst h ! i)")
    case True
    then show ?thesis using 1(2) by (subst down.simps) auto
  next
    case False
    then have c: "\<not> n \<le> 2 * i + 1" "\<not> \<not> cmp (snd h) (fst h ! ?j) (fst h ! i)" by auto
    then have j: "i < ?j" "?j < n" using child_bounds [of i n cmp h] by auto
    have il: "i < length (fst h)" and jl: "?j < length (fst h)"
      using j 1(3) by auto
    have s: "indexed get (Swap setIndex h i ?j)"
      using 1(2) il jl 1(4) by (rule Swap_indexed)
    have l: "n \<le> length (fst (Swap setIndex h i ?j))"
      using 1(3) by (simp add: length_Swap)
    have "indexed get (fst (down cmp setIndex (Swap setIndex h i ?j) ?j n))"
      by (rule 1(1) [OF c s l 1(4)])
    then show ?thesis
      using False by (subst down.simps) simp
  qed
qed

lemma pq_Push_indexed:
  assumes h: "indexed get h" and x: "x \<notin> set (fst h)" "get (snd h) x \<noteq> None"
    and law: "\<And>st x i y. get st x \<noteq> None \<Longrightarrow>
                get (setIndex st x i) y = (if y = x then Some i else get st y)"
  shows "indexed get (pq_Push cmp setIndex h x)"
proof -
  obtain q st where hq: "h = (q, st)" by (cases h)
  let ?st = "setIndex st x (int (length q))"
  from h hq have d: "distinct q" and ix: "\<And>k. k < length q \<Longrightarrow> get st (q ! k) = Some (int k)"
    by (auto simp: indexed_def)
  have g: "\<And>y. get ?st y = (if y = x then Some (int (length q)) else get st y)"
    using law [of st x "int (length q)"] x hq by simp
  have "get ?st ((q @ [x]) ! k) = Some (int k)" if "k < length (q @ [x])" for k
  proof (cases "k < length q")
    case True
    then have "q ! k \<noteq> x" using x hq by (metis fst_conv nth_mem)
    then show ?thesis using True ix [OF True] by (simp add: g nth_append)
  next
    case False
    with that have "k = length q" by simp
    then show ?thesis by (simp add: g)
  qed
  moreover have "distinct (q @ [x])" using d x hq by simp
  ultimately have "indexed get (q @ [x], ?st)"
    by (simp add: indexed_def)
  then have "indexed get (up cmp setIndex (q @ [x], ?st) (length q))"
    by (rule up_indexed) (simp, rule law)
  then show ?thesis by (simp add: hq pq_Push_def)
qed


lemma pq_Pop_indexed:
  assumes pop: "pq_Pop cmp setIndex h = Inr (x, h')" and h: "indexed get h"
    and law: "\<And>st x i y. get st x \<noteq> None \<Longrightarrow>
                get (setIndex st x i) y = (if y = x then Some i else get st y)"
  shows "indexed get h' \<and> x \<notin> set (fst h') \<and> get (snd h') x = Some (- 1)"
proof -
  let ?n = "length (fst h) - 1"
  let ?h2 = "fst (down cmp setIndex (Swap setIndex h 0 ?n) 0 ?n)"
  from pop have ne: "fst h \<noteq> []"
    by (auto simp: pq_Pop_def split: if_splits)
  then have n: "?n < length (fst h)" "0 < length (fst h)" by (cases "fst h", auto)+
  from pop ne have x: "x = last (fst ?h2)" and h': "h' = (butlast (fst ?h2), setIndex (snd ?h2) x (- 1))"
    by (auto simp: pq_Pop_def Let_def)
  have "indexed get (Swap setIndex h 0 ?n)"
    using h n(2) n(1) law by (rule Swap_indexed)
  then have h2: "indexed get ?h2"
    by (rule down_indexed) (simp add: length_Swap, rule law)
  have len: "length (fst ?h2) = length (fst h)"
    by (simp add: length_down length_Swap)
  then have ne2: "fst ?h2 \<noteq> []" using ne by auto
  from h2 have d: "distinct (fst ?h2)"
    and ix: "\<And>k. k < length (fst ?h2) \<Longrightarrow> get (snd ?h2) (fst ?h2 ! k) = Some (int k)"
    by (auto simp: indexed_def)
  have xl: "x = fst ?h2 ! ?n" using x ne2 len by (simp add: last_conv_nth)
  have xin: "get (snd ?h2) x \<noteq> None" using ix [of ?n] xl n len by simp
  have "distinct (butlast (fst ?h2) @ [last (fst ?h2)])"
    using d ne2 by simp
  then have notin: "x \<notin> set (butlast (fst ?h2))"
    using x by simp
  have "get (setIndex (snd ?h2) x (- 1)) (butlast (fst ?h2) ! k) = Some (int k)"
    if "k < length (butlast (fst ?h2))" for k
  proof -
    from that have k: "k < length (fst ?h2)" by simp
    have "butlast (fst ?h2) ! k \<noteq> x"
      using notin that by (metis nth_mem)
    then show ?thesis
      using law [OF xin] ix [OF k] that by (simp add: nth_butlast)
  qed
  then show ?thesis
    using d notin law [OF xin] by (auto simp: h' indexed_def distinct_butlast)
qed


lemma pq_Update_indexed:
  assumes "pq_Update cmp setIndex h i = Inr h'" and h: "indexed get h"
    and law: "\<And>st x i y. get st x \<noteq> None \<Longrightarrow>
                get (setIndex st x i) y = (if y = x then Some i else get st y)"
  shows "indexed get h'"
proof (cases "0 \<le> i \<and> nat i < length (fst h)")
  case True
  obtain g k where d: "down cmp setIndex h (nat i) (length (fst h)) = (g, k)"
    by (cases "down cmp setIndex h (nat i) (length (fst h))")
  have "indexed get (fst (down cmp setIndex h (nat i) (length (fst h))))"
    using h _ law by (rule down_indexed) simp
  then have g: "indexed get g" using d by simp
  have "length (fst g) = length (fst h)"
    using length_down [of cmp setIndex h "nat i" "length (fst h)"] d by simp
  then have "nat i < length (fst g)" using True by simp
  with g have u: "indexed get (up cmp setIndex g (nat i))"
    using law by (rule up_indexed)
  from assms(1) True d have "h' = g \<or> h' = up cmp setIndex g (nat i)"
    by (auto simp: pq_Update_def split: if_splits)
  with g u show ?thesis by blast
next
  case False
  with assms show ?thesis by (auto simp: pq_Update_def split: if_splits)
qed

definition task_Index :: "(nat \<rightharpoonup> peerRequestTask) \<Rightarrow> nat \<Rightarrow> int option" where
  "task_Index st a = map_option peerRequestTask.index (st a)"

definition partner_Index :: "(peerID \<rightharpoonup> 'w::len activePartner) \<Rightarrow> peerID \<Rightarrow> int option" where
  "partner_Index st p = map_option activePartner.index (st p)"

definition task_core :: "peerRequestTask \<Rightarrow> Entry \<times> peerID \<times> bool \<times> nat" where
  "task_core t = (Entry t, Target t, trash t, created t)"

definition partner_core :: "'w::len activePartner \<Rightarrow> 'w word \<times> key set \<times> 'w word \<times> nat list" where
  "partner_core p = (active p, activeBlocks p, requests p, taskQueue p)"

definition only_index :: "('r \<Rightarrow> 'c) \<Rightarrow> 'a set \<Rightarrow> ('a \<rightharpoonup> 'r) \<Rightarrow> ('a \<rightharpoonup> 'r) \<Rightarrow> bool" where
  "only_index core A st st' =
     (\<forall>b. (b \<notin> A \<longrightarrow> st' b = st b) \<and> map_option core (st' b) = map_option core (st b))"

lemma only_index_refl: "only_index core A st st"
  by (simp add: only_index_def)

lemma only_index_mono: "only_index core A st st' \<Longrightarrow> A \<subseteq> B \<Longrightarrow> only_index core B st st'"
  by (auto simp: only_index_def)

lemma only_index_Some:
  "only_index core A st st' \<Longrightarrow> st' b = Some r' \<Longrightarrow> \<exists>r. st b = Some r \<and> core r = core r'"
  by (metis (no_types, lifting) only_index_def map_option_eq_Some option.simps(9))

lemma only_index_Some':
  "only_index core A st st' \<Longrightarrow> st b = Some r \<Longrightarrow> \<exists>r'. st' b = Some r' \<and> core r' = core r"
  by (metis (no_types, lifting) only_index_def map_option_eq_Some option.simps(9))

lemma only_index_None: "only_index core A st st' \<Longrightarrow> (st' b = None) = (st b = None)"
  by (metis only_index_def option.map_disc_iff)

lemma task_law:
  "task_Index st x \<noteq> None \<Longrightarrow>
     task_Index (task_SetIndex st x i) y = (if y = x then Some i else task_Index st y)"
  by (auto simp: task_Index_def task_SetIndex_def split: option.splits)

lemma partner_law:
  "partner_Index st x \<noteq> None \<Longrightarrow>
     partner_Index (partner_SetIndex st x i) y = (if y = x then Some i else partner_Index st y)"
  by (auto simp: partner_Index_def partner_SetIndex_def split: option.splits)

lemma task_step:
  "y \<in> A \<Longrightarrow> only_index task_core A st0 st \<Longrightarrow> only_index task_core A st0 (task_SetIndex st y i)"
  unfolding only_index_def task_SetIndex_def
  by (cases "st y") (auto simp: task_core_def dest: spec [where x = y])

lemma partner_step:
  "y \<in> A \<Longrightarrow> only_index partner_core A st0 st
     \<Longrightarrow> only_index partner_core A st0 (partner_SetIndex st y i)"
  unfolding only_index_def partner_SetIndex_def
  by (cases "st y") (auto simp: partner_core_def dest: spec [where x = y])

lemma indexed_cong:
  "indexed get (q, st) \<Longrightarrow> (\<And>b. b \<in> set q \<Longrightarrow> get st' b = get st b) \<Longrightarrow> indexed get (q, st')"
  by (simp add: indexed_def)

lemma indexed_Nil: "indexed get ([], st)"
  by (simp add: indexed_def)

text \<open>The container's operations, for any store with the two laws.\<close>

lemma pq_Push_spec:
  assumes h: "indexed get (q, st)" and x: "x \<notin> set q" "get st x \<noteq> None"
    and law: "\<And>st x i y. get st x \<noteq> None \<Longrightarrow>
                get (setIndex st x i) y = (if y = x then Some i else get st y)"
    and step: "\<And>A st0 st y i. y \<in> A \<Longrightarrow> only_index core A st0 st
                \<Longrightarrow> only_index core A st0 (setIndex st y i)"
  shows "\<exists>q' st'. pq_Push cmp setIndex (q, st) x = (q', st') \<and> indexed get (q', st')
           \<and> mset q' = add_mset x (mset q) \<and> only_index core (insert x (set q)) st st'"
proof -
  obtain q' st' where r: "pq_Push cmp setIndex (q, st) x = (q', st')"
    by (cases "pq_Push cmp setIndex (q, st) x")
  have "indexed get (pq_Push cmp setIndex (q, st) x)"
    by (rule pq_Push_indexed [OF h]) (use x in \<open>auto simp: law\<close>)
  moreover have "mset (fst (pq_Push cmp setIndex (q, st) x)) = add_mset x (mset (fst (q, st)))"
    by (rule mset_pq_Push)
  moreover have "only_index core (insert x (set q)) st (snd (pq_Push cmp setIndex (q, st) x))"
    by (rule pq_Push_store [where P = "only_index core (insert x (set q)) st"])
       (auto simp: only_index_refl intro: step)
  ultimately show ?thesis using r by simp
qed

lemma pq_Pop_spec:
  assumes h: "indexed get (q, st)" and ne: "q \<noteq> []"
    and law: "\<And>st x i y. get st x \<noteq> None \<Longrightarrow>
                get (setIndex st x i) y = (if y = x then Some i else get st y)"
    and step: "\<And>A st0 st y i. y \<in> A \<Longrightarrow> only_index core A st0 st
                \<Longrightarrow> only_index core A st0 (setIndex st y i)"
  shows "\<exists>x q' st'. pq_Pop cmp setIndex (q, st) = Inr (x, q', st') \<and> indexed get (q', st')
           \<and> add_mset x (mset q') = mset q \<and> x \<notin> set q' \<and> get st' x \<noteq> None
           \<and> only_index core (set q) st st'"
proof -
  obtain x q' st' where r: "pq_Pop cmp setIndex (q, st) = Inr (x, q', st')"
    using pq_Pop_nonempty [of "(q, st)" cmp setIndex] ne by auto
  have "indexed get (q', st') \<and> x \<notin> set (fst (q', st')) \<and> get (snd (q', st')) x = Some (- 1)"
    by (rule pq_Pop_indexed [OF r h]) (simp add: law)
  moreover have "add_mset x (mset (fst (q', st'))) = mset (fst (q, st))"
    using r by (rule mset_pq_Pop)
  moreover have "only_index core (set q) st (snd (q', st'))"
    using r by (rule pq_Pop_store [where P = "only_index core (set q) st"])
       (auto simp: only_index_refl intro: step)
  ultimately show ?thesis using r by auto
qed

lemma pq_Update_spec:
  assumes h: "indexed get (q, st)" and r: "pq_Update cmp setIndex (q, st) i = Inr (q', st')"
    and law: "\<And>st x i y. get st x \<noteq> None \<Longrightarrow>
                get (setIndex st x i) y = (if y = x then Some i else get st y)"
    and step: "\<And>A st0 st y i. y \<in> A \<Longrightarrow> only_index core A st0 st
                \<Longrightarrow> only_index core A st0 (setIndex st y i)"
  shows "indexed get (q', st') \<and> mset q' = mset q \<and> only_index core (set q) st st'"
proof -
  have "indexed get (q', st')"
    by (rule pq_Update_indexed [OF r h]) (simp add: law)
  moreover have "mset (fst (q', st')) = mset (fst (q, st))"
    using r by (rule mset_pq_Update)
  moreover have "only_index core (set q) st (snd (q', st'))"
    using r by (rule pq_Update_store [where P = "only_index core (set q) st"])
       (auto simp: only_index_refl intro: step)
  ultimately show ?thesis by simp
qed


text \<open>The two instances: queues of tasks and the queue of partners.\<close>

lemma task_pq_Push:
  assumes "indexed task_Index (q, st)" "x \<notin> set q" "task_Index st x \<noteq> None"
  shows "\<exists>q' st'. pq_Push cmp task_SetIndex (q, st) x = (q', st') \<and> indexed task_Index (q', st')
           \<and> mset q' = add_mset x (mset q) \<and> only_index task_core (insert x (set q)) st st'"
  by (rule pq_Push_spec [OF assms]) (simp add: task_law, simp add: task_step)

lemma task_pq_Pop:
  assumes "indexed task_Index (q, st)" "q \<noteq> []"
  shows "\<exists>x q' st'. pq_Pop cmp task_SetIndex (q, st) = Inr (x, q', st') \<and> indexed task_Index (q', st')
           \<and> add_mset x (mset q') = mset q \<and> x \<notin> set q' \<and> task_Index st' x \<noteq> None
           \<and> only_index task_core (set q) st st'"
  by (rule pq_Pop_spec [OF assms]) (simp add: task_law, simp add: task_step)

lemma task_pq_Update:
  assumes "indexed task_Index (q, st)" "pq_Update cmp task_SetIndex (q, st) i = Inr (q', st')"
  shows "indexed task_Index (q', st') \<and> mset q' = mset q \<and> only_index task_core (set q) st st'"
  by (rule pq_Update_spec [OF assms]) (simp add: task_law, simp add: task_step)

lemma partner_pq_Push:
  assumes "indexed partner_Index (q, st)" "x \<notin> set q" "partner_Index st x \<noteq> None"
  shows "\<exists>q' st'. pq_Push cmp partner_SetIndex (q, st) x = (q', st')
           \<and> indexed partner_Index (q', st')
           \<and> mset q' = add_mset x (mset q) \<and> only_index partner_core (insert x (set q)) st st'"
  by (rule pq_Push_spec [OF assms]) (simp add: partner_law, simp add: partner_step)

lemma partner_pq_Pop:
  assumes "indexed partner_Index (q, st)" "q \<noteq> []"
  shows "\<exists>x q' st'. pq_Pop cmp partner_SetIndex (q, st) = Inr (x, q', st')
           \<and> indexed partner_Index (q', st')
           \<and> add_mset x (mset q') = mset q \<and> x \<notin> set q' \<and> partner_Index st' x \<noteq> None
           \<and> only_index partner_core (set q) st st'"
  by (rule pq_Pop_spec [OF assms]) (simp add: partner_law, simp add: partner_step)

lemma partner_pq_Update:
  assumes "indexed partner_Index (q, st)" "pq_Update cmp partner_SetIndex (q, st) i = Inr (q', st')"
  shows "indexed partner_Index (q', st') \<and> mset q' = mset q
           \<and> only_index partner_core (set q) st st'"
  by (rule pq_Update_spec [OF assms]) (simp add: partner_law, simp add: partner_step)

section \<open>The invariant of the queue\<close>

definition outer :: "peerID list \<Rightarrow> (peerID \<rightharpoonup> 'w::len activePartner) \<Rightarrow> bool" where
  "outer pq ps = (indexed partner_Index (pq, ps) \<and> dom ps \<subseteq> set pq)"

definition inner ::
  "(peerID \<rightharpoonup> 'w::len activePartner) \<Rightarrow> (nat \<rightharpoonup> peerRequestTask) \<Rightarrow> (string \<rightharpoonup> nat) \<Rightarrow> nat \<Rightarrow> bool" where
  "inner ps ts tm fr =
     ((\<forall>p pr. ps p = Some pr \<longrightarrow>
         indexed task_Index (taskQueue pr, ts) \<and>
         (\<forall>a. a \<in> set (taskQueue pr) \<longrightarrow>
            (\<exists>t. ts a = Some t \<and> Target t = p \<and> tm (task_Key t) = Some a))) \<and>
      (\<forall>x a. tm x = Some a \<longrightarrow>
         (\<exists>t pr. ts a = Some t \<and> task_Key t = x \<and> ps (Target t) = Some pr
                \<and> a \<in> set (taskQueue pr))) \<and>
      (\<forall>a. fr \<le> a \<longrightarrow> ts a = None))"

definition prq_inv :: "'w::len prq \<Rightarrow> bool" where
  "prq_inv s = (outer (pQueue s) (partners s) \<and> inner (partners s) (tasks s) (taskMap s) (fresh s))"

lemma inner_indexed:
  "inner ps ts tm fr \<Longrightarrow> ps p = Some pr \<Longrightarrow> indexed task_Index (taskQueue pr, ts)"
  by (simp add: inner_def)

lemma inner_queued:
  "inner ps ts tm fr \<Longrightarrow> ps p = Some pr \<Longrightarrow> a \<in> set (taskQueue pr) \<Longrightarrow>
     \<exists>t. ts a = Some t \<and> Target t = p \<and> tm (task_Key t) = Some a"
  by (simp add: inner_def)

lemma inner_mapped:
  "inner ps ts tm fr \<Longrightarrow> tm x = Some a \<Longrightarrow>
     \<exists>t pr. ts a = Some t \<and> task_Key t = x \<and> ps (Target t) = Some pr \<and> a \<in> set (taskQueue pr)"
  by (simp add: inner_def)

lemma inner_fresh: "inner ps ts tm fr \<Longrightarrow> fr \<le> a \<Longrightarrow> ts a = None"
  by (simp add: inner_def)

lemma innerI:
  assumes "\<And>p pr. ps p = Some pr \<Longrightarrow> indexed task_Index (taskQueue pr, ts)"
    and "\<And>p pr a. ps p = Some pr \<Longrightarrow> a \<in> set (taskQueue pr) \<Longrightarrow>
           \<exists>t. ts a = Some t \<and> Target t = p \<and> tm (task_Key t) = Some a"
    and "\<And>x a. tm x = Some a \<Longrightarrow>
           \<exists>t pr. ts a = Some t \<and> task_Key t = x \<and> ps (Target t) = Some pr \<and> a \<in> set (taskQueue pr)"
    and "\<And>a. fr \<le> a \<Longrightarrow> ts a = None"
  shows "inner ps ts tm fr"
  unfolding inner_def using assms by blast

text \<open>Two queues share no task; a queued task is allocated.\<close>

lemma inner_disjoint:
  assumes "inner ps ts tm fr" "ps p = Some pr" "ps p' = Some pr'" "p \<noteq> p'"
    "a \<in> set (taskQueue pr)"
  shows "a \<notin> set (taskQueue pr')"
  using inner_queued [OF assms(1,2,5)] inner_queued [OF assms(1,3), of a] assms(4) by auto

lemma inner_queued_lt:
  assumes "inner ps ts tm fr" "ps p = Some pr" "a \<in> set (taskQueue pr)"
  shows "a < fr"
  using inner_queued [OF assms] inner_fresh [OF assms(1), of a] by (cases "a < fr") auto

text \<open>The outer queue's operations change no partner but in its index.\<close>

lemma partner_core_eq:
  "partner_core pr = partner_core pr' \<Longrightarrow>
     active pr = active pr' \<and> taskQueue pr = taskQueue pr' \<and> requests pr = requests pr'
     \<and> activeBlocks pr = activeBlocks pr'"
  by (simp add: partner_core_def)

lemma task_core_eq:
  "task_core t = task_core t' \<Longrightarrow>
     Entry t = Entry t' \<and> Target t = Target t' \<and> trash t = trash t' \<and> task_Key t = task_Key t'"
  by (simp add: task_core_def task_Key_def)

lemma inner_partners:
  assumes i: "inner ps ts tm fr" and o: "only_index partner_core A ps ps'"
  shows "inner ps' ts tm fr"
proof (rule innerI)
  fix p pr assume "ps' p = Some pr"
  then obtain pr0 where p0: "ps p = Some pr0" "partner_core pr0 = partner_core pr"
    using only_index_Some [OF o] by blast
  then have e: "active pr = active pr0" "taskQueue pr = taskQueue pr0"
    using partner_core_eq [of pr0 pr] by auto
  show "indexed task_Index (taskQueue pr, ts)" using inner_indexed [OF i p0(1)] e by simp
  fix a assume "a \<in> set (taskQueue pr)"
  then show "\<exists>t. ts a = Some t \<and> Target t = p \<and> tm (task_Key t) = Some a"
    using inner_queued [OF i p0(1), of a] e by simp
next
  fix x a assume "tm x = Some a"
  then obtain t pr where t: "ts a = Some t" "task_Key t = x" "ps (Target t) = Some pr"
    "a \<in> set (taskQueue pr)"
    using inner_mapped [OF i] by blast
  obtain pr' where "ps' (Target t) = Some pr'" "partner_core pr' = partner_core pr"
    using only_index_Some' [OF o t(3)] by blast
  then show "\<exists>t pr. ts a = Some t \<and> task_Key t = x \<and> ps' (Target t) = Some pr \<and> a \<in> set (taskQueue pr)"
    using t partner_core_eq [of pr' pr] by auto
next
  fix a assume "fr \<le> a"
  then show "ts a = None" using inner_fresh [OF i] by simp
qed

lemma outer_in_queue: "outer pq ps \<Longrightarrow> (p \<in> set pq) = (ps p \<noteq> None)"
proof
  assume o: "outer pq ps" and "p \<in> set pq"
  then obtain i where "i < length pq" "pq ! i = p" by (auto simp: in_set_conv_nth)
  with o show "ps p \<noteq> None"
    by (auto simp: outer_def indexed_def partner_Index_def)
next
  assume "outer pq ps" and "ps p \<noteq> None"
  then show "p \<in> set pq" by (auto simp: outer_def)
qed

lemma outer_index:
  assumes "outer pq ps" "ps p = Some pr"
  shows "0 \<le> activePartner.index pr \<and> nat (activePartner.index pr) < length pq"
proof -
  from assms have "p \<in> set pq" by (auto simp: outer_def)
  then obtain i where i: "i < length pq" "pq ! i = p" by (auto simp: in_set_conv_nth)
  with assms have "activePartner.index pr = int i"
    by (auto simp: outer_def indexed_def partner_Index_def)
  with i show ?thesis by simp
qed


lemma partner_Index_upd:
  "partner_Index (ps(p \<mapsto> pr)) b = (if b = p then Some (activePartner.index pr) else partner_Index ps b)"
  by (simp add: partner_Index_def)

lemma task_Index_upd:
  "task_Index (ts(a \<mapsto> t)) b = (if b = a then Some (peerRequestTask.index t) else task_Index ts b)"
  by (simp add: task_Index_def)

text \<open>A partner changed in its core fields only: the outer queue is as before.\<close>

lemma outer_upd:
  assumes "outer pq ps" "ps p = Some pr" "activePartner.index pr' = activePartner.index pr"
  shows "outer pq (ps(p \<mapsto> pr'))"
proof -
  have "indexed partner_Index (pq, ps(p \<mapsto> pr'))"
    using assms by (auto simp: outer_def partner_Index_upd partner_Index_def
        intro!: indexed_cong [of partner_Index pq ps])
  then show ?thesis using assms by (auto simp: outer_def)
qed

lemma addPartner_spec:
  assumes "prq_inv s"
  shows "prq_inv (addPartner to s) \<and> partners (addPartner to s) to \<noteq> None
         \<and> tasks (addPartner to s) = tasks s \<and> taskMap (addPartner to s) = taskMap s
         \<and> fresh (addPartner to s) = fresh s
         \<and> (partners s to \<noteq> None \<longrightarrow> addPartner to s = s)
         \<and> (\<forall>p. p \<noteq> to \<longrightarrow>
               map_option partner_core (partners (addPartner to s) p) = map_option partner_core (partners s p))
         \<and> (partners s to = None \<longrightarrow>
               map_option partner_core (partners (addPartner to s) to) = Some (partner_core newActivePartner))"
proof (cases "partners s to")
  case (Some pr)
  then show ?thesis using assms by (simp add: addPartner_def)
next
  case None
  let ?ps0 = "(partners s)(to \<mapsto> newActivePartner)"
  from assms have o: "outer (pQueue s) (partners s)"
    and i: "inner (partners s) (tasks s) (taskMap s) (fresh s)"
    by (auto simp: prq_inv_def)
  have notin: "to \<notin> set (pQueue s)"
    using outer_in_queue [OF o, of to] None by simp
  have ix0: "indexed partner_Index (pQueue s, ?ps0)"
    using o notin by (auto simp: outer_def partner_Index_upd
        intro!: indexed_cong [of partner_Index "pQueue s" "partners s"])
  have "partner_Index ?ps0 to \<noteq> None" by (simp add: partner_Index_upd)
  from partner_pq_Push [OF ix0 notin this, of partnerLess]
  obtain q ps where r: "pq_Push partnerLess partner_SetIndex (pQueue s, ?ps0) to = (q, ps)"
    and ix: "indexed partner_Index (q, ps)" and m: "mset q = add_mset to (mset (pQueue s))"
    and oi: "only_index partner_core (insert to (set (pQueue s))) ?ps0 ps"
    by blast
  have s': "addPartner to s = s\<lparr>pQueue := q, partners := ps\<rparr>"
    using None r by (simp add: addPartner_def)
  have setq: "set q = insert to (set (pQueue s))"
    using m by (metis set_mset_mset set_mset_add_mset_insert)
  have dom: "dom ps = insert to (dom (partners s))"
    using only_index_None [OF oi] by (auto simp: dom_def)
  have out: "outer q ps"
    using ix dom setq o by (auto simp: outer_def)
  have i0: "inner ?ps0 (tasks s) (taskMap s) (fresh s)"
  proof (rule innerI)
    fix p pr assume p: "?ps0 p = Some pr"
    show "indexed task_Index (taskQueue pr, tasks s)"
      using p inner_indexed [OF i, of p pr]
      by (auto simp: newActivePartner_def indexed_Nil split: if_splits)
    fix a assume "a \<in> set (taskQueue pr)"
    then show "\<exists>t. tasks s a = Some t \<and> Target t = p \<and> taskMap s (task_Key t) = Some a"
      using p inner_queued [OF i, of p pr a] by (auto simp: newActivePartner_def split: if_splits)
  next
    fix x a assume "taskMap s x = Some a"
    then obtain t pr where t: "tasks s a = Some t" "task_Key t = x" "partners s (Target t) = Some pr"
      "a \<in> set (taskQueue pr)"
      using inner_mapped [OF i] by blast
    then have "Target t \<noteq> to" using None by auto
    then show "\<exists>t pr. tasks s a = Some t \<and> task_Key t = x \<and> ?ps0 (Target t) = Some pr
                  \<and> a \<in> set (taskQueue pr)"
      using t by auto
  next
    fix a assume "fresh s \<le> a"
    then show "tasks s a = None" using inner_fresh [OF i] by simp
  qed
  have inn: "inner ps (tasks s) (taskMap s) (fresh s)"
    using i0 oi by (rule inner_partners)
  have core: "\<And>p. map_option partner_core (ps p) = map_option partner_core (?ps0 p)"
    using oi by (simp add: only_index_def)
  have "ps to \<noteq> None" using dom by auto
  then show ?thesis
    using out inn None core by (simp add: s' prq_inv_def)
qed

text \<open>
  One partner's queue and the memory of the tasks change together: what the other
  queues and the task map need to stay as they were.
\<close>

lemma inner_frame:
  assumes i: "inner ps ts tm fr" and p: "ps p = Some pr"
    and keep: "\<And>b t. ts b = Some t \<Longrightarrow>
                 \<exists>t'. ts' b = Some t' \<and> Target t' = Target t \<and> task_Key t' = task_Key t"
    and others: "\<And>b. b \<notin> set (taskQueue pr) \<Longrightarrow> b \<notin> set q \<Longrightarrow> task_Index ts' b = task_Index ts b"
    and ix: "indexed task_Index (q, ts')"
    and mem: "\<And>b. b \<in> set q \<Longrightarrow> \<exists>t. ts' b = Some t \<and> Target t = p \<and> tm' (task_Key t) = Some b"
    and tmo: "\<And>x b. tm' x = Some b \<Longrightarrow>
                (b \<in> set q \<and> (\<exists>t. ts' b = Some t \<and> task_Key t = x))
                \<or> (tm x = Some b \<and> b \<notin> set (taskQueue pr))"
    and tmk: "\<And>x b. tm x = Some b \<Longrightarrow> b \<notin> set (taskQueue pr) \<Longrightarrow> tm' x = Some b"
    and fr: "\<And>b. fr' \<le> b \<Longrightarrow> ts' b = None"
    and pr': "taskQueue pr' = q"
  shows "inner (ps(p \<mapsto> pr')) ts' tm' fr'"
proof (rule innerI)
  fix p2 pr2 assume p2: "(ps(p \<mapsto> pr')) p2 = Some pr2"
  have other: "b \<notin> set (taskQueue pr) \<and> b \<notin> set q
               \<and> (\<exists>t'. ts' b = Some t' \<and> Target t' = p2 \<and> tm' (task_Key t') = Some b)"
    if ne: "p2 \<noteq> p" and b: "b \<in> set (taskQueue pr2)" for b
  proof -
    from p2 ne have q2: "ps p2 = Some pr2" by simp
    obtain t where t: "ts b = Some t" "Target t = p2" "tm (task_Key t) = Some b"
      using inner_queued [OF i q2 b] by blast
    obtain t' where t': "ts' b = Some t'" "Target t' = Target t" "task_Key t' = task_Key t"
      using keep [OF t(1)] by blast
    have n1: "b \<notin> set (taskQueue pr)"
      using inner_disjoint [OF i q2 p ne b] .
    have n2: "b \<notin> set q"
      using mem [of b] t' t(2) ne by auto
    show ?thesis
      using n1 n2 t' t tmk [OF t(3) n1] by simp
  qed
  show "indexed task_Index (taskQueue pr2, ts')"
  proof (cases "p2 = p")
    case True
    then show ?thesis using p2 pr' ix by simp
  next
    case False
    then have q2: "ps p2 = Some pr2" using p2 by simp
    show ?thesis
      using inner_indexed [OF i q2] other [OF False] others
      by (auto intro!: indexed_cong [of task_Index "taskQueue pr2" ts])
  qed
  fix a assume a: "a \<in> set (taskQueue pr2)"
  show "\<exists>t. ts' a = Some t \<and> Target t = p2 \<and> tm' (task_Key t) = Some a"
  proof (cases "p2 = p")
    case True
    then show ?thesis using p2 pr' a mem [of a] by simp
  next
    case False
    then show ?thesis using other [OF False a] by blast
  qed
next
  fix x b assume m: "tm' x = Some b"
  from tmo [OF m] show "\<exists>t pr2. ts' b = Some t \<and> task_Key t = x \<and> (ps(p \<mapsto> pr')) (Target t) = Some pr2
           \<and> b \<in> set (taskQueue pr2)"
  proof
    assume c: "b \<in> set q \<and> (\<exists>t. ts' b = Some t \<and> task_Key t = x)"
    then obtain t where t: "ts' b = Some t" "task_Key t = x" by blast
    with c mem [of b] have "Target t = p" by auto
    with t c pr' show ?thesis by auto
  next
    assume c: "tm x = Some b \<and> b \<notin> set (taskQueue pr)"
    then obtain t pr0 where t: "ts b = Some t" "task_Key t = x" "ps (Target t) = Some pr0"
      "b \<in> set (taskQueue pr0)"
      using inner_mapped [OF i, of x b] by blast
    then have ne: "Target t \<noteq> p" using c p by auto
    obtain t' where t': "ts' b = Some t'" "Target t' = Target t" "task_Key t' = task_Key t"
      using keep [OF t(1)] by blast
    show ?thesis using t t' ne by auto
  qed
next
  fix b assume "fr' \<le> b"
  then show "ts' b = None" by (rule fr)
qed

lemma prq_invD:
  "prq_inv s \<Longrightarrow> outer (pQueue s) (partners s)"
  "prq_inv s \<Longrightarrow> inner (partners s) (tasks s) (taskMap s) (fresh s)"
  by (simp_all add: prq_inv_def)

lemma task_Key_Priority [simp]:
  "task_Key (t\<lparr>Entry := (Entry t)\<lparr>Priority := n\<rparr>\<rparr>) = task_Key t"
  by (simp add: task_Key_def)

text \<open>\<^verbatim>\<open>Push\<close> on a key the task map has: the priority is set and the queue re-heapified.\<close>

lemma Push_update_path:
  assumes inv: "prq_inv s" and p: "partners s to = Some partner"
    and m: "taskMap s x = Some a" and t: "tasks s a = Some task"
    and u: "pq_Update (wrapCmp V1) task_SetIndex
              (taskQueue partner, (tasks s)(a \<mapsto> task\<lparr>Entry := (Entry task)\<lparr>Priority := n\<rparr>\<rparr>)) i
            = Inr (q, ts)"
  shows "prq_inv (s\<lparr>partners := (partners s)(to \<mapsto> partner\<lparr>taskQueue := q\<rparr>), tasks := ts\<rparr>)
         \<and> mset q = mset (taskQueue partner)
         \<and> only_index task_core (set (taskQueue partner))
              ((tasks s)(a \<mapsto> task\<lparr>Entry := (Entry task)\<lparr>Priority := n\<rparr>\<rparr>)) ts"
proof -
  let ?t1 = "task\<lparr>Entry := (Entry task)\<lparr>Priority := n\<rparr>\<rparr>"
  let ?ts1 = "(tasks s)(a \<mapsto> ?t1)"
  note o = prq_invD(1) [OF inv] and i = prq_invD(2) [OF inv]
  have idx1: "\<And>b. task_Index ?ts1 b = task_Index (tasks s) b"
    using t by (simp add: task_Index_def)
  have ix1: "indexed task_Index (taskQueue partner, ?ts1)"
    using inner_indexed [OF i p] idx1 by (auto intro!: indexed_cong [of task_Index _ "tasks s"])
  from task_pq_Update [OF ix1 u]
  have ix: "indexed task_Index (q, ts)" and ms: "mset q = mset (taskQueue partner)"
    and oi: "only_index task_core (set (taskQueue partner)) ?ts1 ts"
    by auto
  have setq: "set q = set (taskQueue partner)" using ms by (metis set_mset_mset)
  have keep: "\<exists>t'. ts b = Some t' \<and> Target t' = Target t0 \<and> task_Key t' = task_Key t0"
    if b0: "tasks s b = Some t0" for b t0
  proof -
    have "t0 = task" if "b = a"
      using that b0 t by simp
    then obtain t1 where t1: "?ts1 b = Some t1" "Target t1 = Target t0" "task_Key t1 = task_Key t0"
      using b0 by (cases "b = a") auto
    obtain t' where "ts b = Some t'" "task_core t' = task_core t1"
      using only_index_Some' [OF oi t1(1)] by blast
    then show ?thesis using t1 task_core_eq [of t' t1] by auto
  qed
  have inn: "inner ((partners s)(to \<mapsto> partner\<lparr>taskQueue := q\<rparr>)) ts (taskMap s) (fresh s)"
  proof (rule inner_frame [OF i p])
    show "\<And>b t. tasks s b = Some t \<Longrightarrow>
            \<exists>t'. ts b = Some t' \<and> Target t' = Target t \<and> task_Key t' = task_Key t"
      by (rule keep)
    show "\<And>b. b \<notin> set (taskQueue partner) \<Longrightarrow> b \<notin> set q \<Longrightarrow> task_Index ts b = task_Index (tasks s) b"
      using oi idx1 by (simp add: only_index_def task_Index_def)
    show "indexed task_Index (q, ts)" by (rule ix)
    show "\<exists>t. ts b = Some t \<and> Target t = to \<and> taskMap s (task_Key t) = Some b" if "b \<in> set q" for b
    proof -
      have "b \<in> set (taskQueue partner)" using that setq by simp
      then obtain t0 where t0: "tasks s b = Some t0" "Target t0 = to" "taskMap s (task_Key t0) = Some b"
        using inner_queued [OF i p, of b] by blast
      with keep [OF t0(1)] show ?thesis by auto
    qed
    show "(b \<in> set q \<and> (\<exists>t. ts b = Some t \<and> task_Key t = y))
          \<or> (taskMap s y = Some b \<and> b \<notin> set (taskQueue partner))" if tmy: "taskMap s y = Some b" for y b
    proof (cases "b \<in> set (taskQueue partner)")
      case True
      obtain t0 where t0: "tasks s b = Some t0" "task_Key t0 = y"
        using inner_mapped [OF i tmy] by blast
      with keep [OF t0(1)] True setq show ?thesis by auto
    next
      case False
      with tmy show ?thesis by simp
    qed
    show "\<And>y b. taskMap s y = Some b \<Longrightarrow> b \<notin> set (taskQueue partner) \<Longrightarrow> taskMap s y = Some b"
      by simp
    show "ts b = None" if "fresh s \<le> b" for b
    proof -
      have "tasks s b = None" using inner_fresh [OF i that] .
      with t have "?ts1 b = None" by auto
      then show ?thesis using only_index_None [OF oi, of b] by simp
    qed
    show "taskQueue (partner\<lparr>taskQueue := q\<rparr>) = q" by simp
  qed
  have out: "outer (pQueue s) ((partners s)(to \<mapsto> partner\<lparr>taskQueue := q\<rparr>))"
    using o p by (rule outer_upd) simp
  show ?thesis
    using inn out ms oi by (simp add: prq_inv_def)
qed

text \<open>\<^verbatim>\<open>Push\<close> of a new task.\<close>

lemma Push_new_path:
  assumes inv: "prq_inv s" and p: "partners s to = Some partner"
    and m: "taskMap s (task_Key task) = None" and tg: "Target task = to"
    and push: "pq_Push (wrapCmp V1) task_SetIndex (taskQueue partner, (tasks s)(fresh s \<mapsto> task)) (fresh s)
                 = (q, ts)"
    and u: "pq_Update partnerLess partner_SetIndex
              (pQueue s, (partners s)(to \<mapsto> partner\<lparr>taskQueue := q, requests := r\<rparr>)) i
            = Inr (pq, ps)"
  shows "prq_inv (s\<lparr>pQueue := pq, partners := ps, taskMap := (taskMap s)(task_Key task \<mapsto> fresh s),
                    tasks := ts, fresh := Suc (fresh s)\<rparr>)
         \<and> mset q = add_mset (fresh s) (mset (taskQueue partner))
         \<and> only_index task_core (insert (fresh s) (set (taskQueue partner)))
              ((tasks s)(fresh s \<mapsto> task)) ts
         \<and> mset pq = mset (pQueue s)
         \<and> only_index partner_core (set (pQueue s))
              ((partners s)(to \<mapsto> partner\<lparr>taskQueue := q, requests := r\<rparr>)) ps"
proof -
  let ?a = "fresh s"
  let ?ts0 = "(tasks s)(?a \<mapsto> task)"
  let ?pr = "partner\<lparr>taskQueue := q, requests := r\<rparr>"
  let ?ps0 = "(partners s)(to \<mapsto> ?pr)"
  let ?tm = "(taskMap s)(task_Key task \<mapsto> ?a)"
  note o = prq_invD(1) [OF inv] and i = prq_invD(2) [OF inv]
  have anone: "tasks s ?a = None" using inner_fresh [OF i, of ?a] by simp
  have notin: "?a \<notin> set (taskQueue partner)"
    using inner_queued_lt [OF i p, of ?a] by auto
  have ix0: "indexed task_Index (taskQueue partner, ?ts0)"
    using inner_indexed [OF i p] notin
    by (auto simp: task_Index_upd intro!: indexed_cong [of task_Index _ "tasks s"])
  have "task_Index ?ts0 ?a \<noteq> None" by (simp add: task_Index_upd)
  from task_pq_Push [OF ix0 notin this, of "wrapCmp V1"] push
  have ix: "indexed task_Index (q, ts)" and ms: "mset q = add_mset ?a (mset (taskQueue partner))"
    and oi: "only_index task_core (insert ?a (set (taskQueue partner))) ?ts0 ts"
    by auto
  have setq: "set q = insert ?a (set (taskQueue partner))"
    using ms by (metis set_mset_mset set_mset_add_mset_insert)
  have new: "\<exists>t'. ts ?a = Some t' \<and> Target t' = to \<and> task_Key t' = task_Key task"
  proof -
    obtain t' where "ts ?a = Some t'" "task_core t' = task_core task"
      using only_index_Some' [OF oi, of ?a task] by auto
    then show ?thesis using tg task_core_eq [of t' task] by auto
  qed
  have keep: "\<exists>t'. ts b = Some t' \<and> Target t' = Target t0 \<and> task_Key t' = task_Key t0"
    if "tasks s b = Some t0" for b t0
  proof -
    have "?ts0 b = Some t0" using that anone by (cases "b = ?a") auto
    then obtain t' where "ts b = Some t'" "task_core t' = task_core t0"
      using only_index_Some' [OF oi] by blast
    then show ?thesis using task_core_eq [of t' t0] by auto
  qed
  have inn0: "inner ?ps0 ts ?tm (Suc ?a)"
  proof (rule inner_frame [OF i p])
    show "\<And>b t. tasks s b = Some t \<Longrightarrow>
            \<exists>t'. ts b = Some t' \<and> Target t' = Target t \<and> task_Key t' = task_Key t"
      by (rule keep)
    show "task_Index ts b = task_Index (tasks s) b"
      if "b \<notin> set (taskQueue partner)" "b \<notin> set q" for b
    proof -
      from that setq have "b \<noteq> ?a" "b \<notin> insert ?a (set (taskQueue partner))" by auto
      then show ?thesis using oi by (simp add: only_index_def task_Index_def)
    qed
    show "indexed task_Index (q, ts)" by (rule ix)
    show "\<exists>t. ts b = Some t \<and> Target t = to \<and> ?tm (task_Key t) = Some b" if "b \<in> set q" for b
    proof (cases "b = ?a")
      case True
      then show ?thesis using new by auto
    next
      case False
      then have "b \<in> set (taskQueue partner)" using that setq by auto
      then obtain t0 where t0: "tasks s b = Some t0" "Target t0 = to" "taskMap s (task_Key t0) = Some b"
        using inner_queued [OF i p, of b] by blast
      then have ne: "task_Key t0 \<noteq> task_Key task" using m by auto
      obtain t' where t': "ts b = Some t'" "Target t' = Target t0" "task_Key t' = task_Key t0"
        using keep [OF t0(1)] by blast
      have "?tm (task_Key t') = Some b" using t' t0 ne by simp
      then show ?thesis using t' t0 by blast
    qed
    show "(b \<in> set q \<and> (\<exists>t. ts b = Some t \<and> task_Key t = y))
          \<or> (taskMap s y = Some b \<and> b \<notin> set (taskQueue partner))" if tm: "?tm y = Some b" for y b
    proof (cases "y = task_Key task")
      case True
      with tm have "b = ?a" by simp
      then show ?thesis using new True setq by auto
    next
      case False
      with tm have old: "taskMap s y = Some b" by simp
      show ?thesis
      proof (cases "b \<in> set (taskQueue partner)")
        case True
        obtain t0 where t0: "tasks s b = Some t0" "task_Key t0 = y"
          using inner_mapped [OF i old] by blast
        with keep [OF t0(1)] True setq show ?thesis by auto
      next
        case False
        with old show ?thesis by simp
      qed
    qed
    show "?tm y = Some b" if "taskMap s y = Some b" for y b
      using that m by auto
    show "ts b = None" if "Suc ?a \<le> b" for b
    proof -
      have "tasks s b = None" using inner_fresh [OF i, of b] that by simp
      with that have "?ts0 b = None" by auto
      then show ?thesis using only_index_None [OF oi, of b] by simp
    qed
    show "taskQueue ?pr = q" by simp
  qed
  have out0: "outer (pQueue s) ?ps0"
    using o p by (rule outer_upd) simp
  then have ixp: "indexed partner_Index (pQueue s, ?ps0)" by (simp add: outer_def)
  from partner_pq_Update [OF ixp u]
  have ixo: "indexed partner_Index (pq, ps)" and mp: "mset pq = mset (pQueue s)"
    and op: "only_index partner_core (set (pQueue s)) ?ps0 ps"
    by auto
  have "dom ps = dom ?ps0"
    using only_index_None [OF op] by (auto simp: dom_def)
  moreover have "set pq = set (pQueue s)" using mp by (metis set_mset_mset)
  ultimately have out: "outer pq ps"
    using ixo out0 by (simp add: outer_def)
  have inn: "inner ps ts ?tm (Suc ?a)"
    using inn0 op by (rule inner_partners)
  show ?thesis
    using out inn ms oi mp op by (simp add: prq_inv_def)
qed

lemma only_index_trans:
  "only_index core A st st' \<Longrightarrow> only_index core B st' st'' \<Longrightarrow> A \<subseteq> C \<Longrightarrow> B \<subseteq> C
     \<Longrightarrow> only_index core C st st''"
  unfolding only_index_def by (metis subsetD)

lemma only_index_task:
  assumes "only_index task_core A ts ts'" "ts b = Some t"
  shows "\<exists>t'. ts' b = Some t' \<and> Entry t' = Entry t \<and> Target t' = Target t \<and> trash t' = trash t
              \<and> task_Key t' = task_Key t"
proof -
  obtain t' where "ts' b = Some t'" "task_core t' = task_core t"
    using only_index_Some' [OF assms] by blast
  then show ?thesis using task_core_eq [of t' t] by auto
qed

lemma only_index_task':
  assumes "only_index task_core A ts ts'" "ts' b = Some t'"
  shows "\<exists>t. ts b = Some t \<and> Entry t' = Entry t \<and> Target t' = Target t \<and> trash t' = trash t
              \<and> task_Key t' = task_Key t"
proof -
  obtain t where "ts b = Some t" "task_core t = task_core t'"
    using only_index_Some [OF assms] by blast
  then show ?thesis using task_core_eq [of t t'] by auto
qed

text \<open>
  The loop of \<^verbatim>\<open>Pop\<close> ends without a panic. The tasks it takes off the queue are
  trash, but for the one it returns; their keys, and no others, leave the task map.
\<close>

definition popped_key :: "nat list \<Rightarrow> nat list \<Rightarrow> (nat \<rightharpoonup> peerRequestTask) \<Rightarrow> string \<Rightarrow> bool" where
  "popped_key q0 q ts x = (\<exists>c t. c \<in> set q0 \<and> c \<notin> set q \<and> ts c = Some t \<and> task_Key t = x)"

definition drain_post ::
  "nat list \<Rightarrow> (nat \<rightharpoonup> peerRequestTask) \<Rightarrow> (string \<rightharpoonup> nat) \<Rightarrow> (nat \<times> peerRequestTask) option
     \<Rightarrow> nat list \<Rightarrow> (nat \<rightharpoonup> peerRequestTask) \<Rightarrow> (string \<rightharpoonup> nat) \<Rightarrow> bool" where
  "drain_post q0 ts0 tm out q ts tm' =
     (indexed task_Index (q, ts) \<and> set q \<subseteq> set q0 \<and> only_index task_core (set q0) ts0 ts
      \<and> (\<forall>x. tm' x = (if popped_key q0 q ts0 x then None else tm x))
      \<and> (\<forall>c t. c \<in> set q0 \<longrightarrow> c \<notin> set q \<longrightarrow> map_option fst out \<noteq> Some c \<longrightarrow>
             ts0 c = Some t \<longrightarrow> trash t)
      \<and> (out = None \<longrightarrow> q = [])
      \<and> (\<forall>a t. out = Some (a, t) \<longrightarrow> a \<in> set q0 \<and> a \<notin> set q \<and> ts a = Some t \<and> \<not> trash t))"

lemma drain_postI:
  assumes "set q \<subseteq> set q0"
    and "\<And>a t. out = Some (a, t) \<Longrightarrow> a \<in> set q0 \<and> a \<notin> set q \<and> ts a = Some t \<and> \<not> trash t"
    and "indexed task_Index (q, ts)" and "only_index task_core (set q0) ts0 ts"
    and "\<And>x. tm' x = (if popped_key q0 q ts0 x then None else tm x)"
    and "\<And>c t. c \<in> set q0 \<Longrightarrow> c \<notin> set q \<Longrightarrow> map_option fst out \<noteq> Some c \<Longrightarrow>
           ts0 c = Some t \<Longrightarrow> trash t"
    and "out = None \<Longrightarrow> q = []"
  shows "drain_post q0 ts0 tm out q ts tm'"
  unfolding drain_post_def
  apply (intro conjI)
        apply (rule assms(3))
       apply (rule assms(1))
      apply (rule assms(4))
     apply (simp add: assms(5))
    apply (meson assms(6))
   apply (simp add: assms(7))
  apply (simp add: assms(2))
  done

lemma drain_spec_aux:
  "indexed task_Index h \<Longrightarrow>
   \<exists>out q ts tm'. drain h tm = Inr (out, (q, ts), tm') \<and> drain_post (fst h) (snd h) tm out q ts tm'"
proof (induction h tm rule: drain.induct)
  case (1 h tm)
  obtain q0 ts0 where h: "h = (q0, ts0)" by (cases h)
  show ?case
  proof (cases "q0 = []")
    case True
    then show ?thesis
      using 1(2) h
      by (subst drain.simps) (simp add: pq_Len_def only_index_refl popped_key_def drain_post_def)
  next
    case False
    from 1(2) h have ix0: "indexed task_Index (q0, ts0)" by simp
    from task_pq_Pop [OF ix0 False, of "wrapCmp V1"]
    obtain x q1 ts1 where pop: "pq_Pop (wrapCmp V1) task_SetIndex (q0, ts0) = Inr (x, q1, ts1)"
      and ix1: "indexed task_Index (q1, ts1)" and ms: "add_mset x (mset q1) = mset q0"
      and xn: "x \<notin> set q1" and xs: "task_Index ts1 x \<noteq> None"
      and oi1: "only_index task_core (set q0) ts0 ts1"
      by blast
    from xs obtain out where out: "ts1 x = Some out" by (auto simp: task_Index_def)
    have set0: "set q0 = insert x (set q1)"
      using ms by (metis set_mset_mset set_mset_add_mset_insert)
    obtain out0 where out0: "ts0 x = Some out0" "trash out = trash out0"
      "task_Key out = task_Key out0"
      using only_index_task' [OF oi1 out] by auto
    have len: "0 < pq_Len h" using False h by (simp add: pq_Len_def)
    have unf: "drain h tm =
        (if trash out then drain (q1, ts1) (tm(task_Key out := None))
         else Inr (Some (x, out), (q1, ts1), tm(task_Key out := None)))"
      using len pop out h by (subst drain.simps) simp
    show ?thesis
    proof (cases "trash out")
      case nt: False
      have pk: "popped_key q0 q1 ts0 y = (y = task_Key out)" for y
        using set0 xn out0 by (auto simp: popped_key_def)
      have "drain_post q0 ts0 tm (Some (x, out)) q1 ts1 (tm(task_Key out := None))"
        unfolding drain_post_def using nt ix1 set0 oi1 out xn pk by auto
      then show ?thesis
        using nt unf h by auto
    next
      case tr: True
      have "\<exists>out' q ts tm'. drain (q1, ts1) (tm(task_Key out := None)) = Inr (out', (q, ts), tm')
          \<and> drain_post (fst (q1, ts1)) (snd (q1, ts1)) (tm(task_Key out := None)) out' q ts tm'"
      proof -
        have pop_h: "pq_Pop (wrapCmp V1) task_SetIndex h = Inr (x, (q1, ts1))"
          using pop h by simp
        have out_snd: "snd (q1, ts1) x = Some out" using out by simp
        show ?thesis
          by (rule 1(1) [OF len pop_h refl out_snd tr ix1])
      qed
      then obtain out' q ts tm' where
          d: "drain (q1, ts1) (tm(task_Key out := None)) = Inr (out', (q, ts), tm')"
        and post: "drain_post q1 ts1 (tm(task_Key out := None)) out' q ts tm'"
        by auto
      from post have ix: "indexed task_Index (q, ts)" and sub: "set q \<subseteq> set q1"
        and oi: "only_index task_core (set q1) ts1 ts"
        and tm': "\<And>y. tm' y = (if popped_key q1 q ts1 y then None else (tm(task_Key out := None)) y)"
        and trs: "\<And>c t. c \<in> set q1 \<Longrightarrow> c \<notin> set q \<Longrightarrow> map_option fst out' \<noteq> Some c \<Longrightarrow>
                    ts1 c = Some t \<Longrightarrow> trash t"
        and resN: "out' = None \<Longrightarrow> q = []"
        and resS: "\<And>a t. out' = Some (a, t) \<Longrightarrow> a \<in> set q1 \<and> a \<notin> set q \<and> ts a = Some t \<and> \<not> trash t"
        by (simp_all add: drain_post_def)
      have oi': "only_index task_core (set q0) ts0 ts"
        using oi1 oi by (rule only_index_trans) (use set0 in auto)
      have xq: "x \<notin> set q" using xn sub by auto
      have key1: "popped_key q1 q ts1 y = popped_key q1 q ts0 y" for y
      proof
        assume "popped_key q1 q ts1 y"
        then obtain c t where c: "c \<in> set q1" "c \<notin> set q" "ts1 c = Some t" "task_Key t = y"
          by (auto simp: popped_key_def)
        with only_index_task' [OF oi1 c(3)] show "popped_key q1 q ts0 y"
          by (auto simp: popped_key_def)
      next
        assume "popped_key q1 q ts0 y"
        then obtain c t where c: "c \<in> set q1" "c \<notin> set q" "ts0 c = Some t" "task_Key t = y"
          by (auto simp: popped_key_def)
        with only_index_task [OF oi1 c(3)] show "popped_key q1 q ts1 y"
          by (auto simp: popped_key_def)
      qed
      have pk: "popped_key q0 q ts0 y = (y = task_Key out \<or> popped_key q1 q ts1 y)" for y
        unfolding key1 using set0 xq out0 by (auto simp: popped_key_def)
      have tm0: "tm' y = (if popped_key q0 q ts0 y then None else tm y)" for y
        unfolding pk tm' by simp
      have trs0: "trash t" if c: "c \<in> set q0" "c \<notin> set q" "map_option fst out' \<noteq> Some c"
        "ts0 c = Some t" for c t
      proof (cases "c = x")
        case True
        then show ?thesis using c out0 tr by simp
      next
        case False
        then have c1: "c \<in> set q1" using c set0 by auto
        obtain t1 where "ts1 c = Some t1" "trash t1 = trash t"
          using only_index_task [OF oi1 c(4)] by auto
        with trs [OF c1 c(2,3)] show ?thesis by simp
      qed
      have "set q \<subseteq> set q0" using sub set0 by auto
      moreover have "\<And>a t. out' = Some (a, t) \<Longrightarrow>
                        a \<in> set q0 \<and> a \<notin> set q \<and> ts a = Some t \<and> \<not> trash t"
        using resS set0 by simp
      ultimately have "drain_post q0 ts0 tm out' q ts tm'"
        using ix oi' tm0 trs0 resN by (rule drain_postI)
      moreover have "drain h tm = Inr (out', (q, ts), tm')" using unf tr d by simp
      ultimately show ?thesis
        using h by auto
    qed
  qed
qed

lemma drain_spec:
  assumes "indexed task_Index (q0, ts0)"
  obtains out q ts tm' where "drain (q0, ts0) tm = Inr (out, (q, ts), tm')"
    and "drain_post q0 ts0 tm out q ts tm'"
  using drain_spec_aux [OF assms, of tm] by auto


text \<open>
  What \<^verbatim>\<open>Pop\<close> does, on a queue with the invariant: \<open>p\<close> is the partner taken
  off the outer queue, \<open>q\<close> what is left of its task queue.
\<close>

definition started :: "'w::len activePartner \<Rightarrow> nat list \<Rightarrow> peerRequestTask option \<Rightarrow> 'w activePartner" where
  "started pr q out =
     (case out of
        None \<Rightarrow> pr\<lparr>taskQueue := q\<rparr>
      | Some t \<Rightarrow> pr\<lparr>taskQueue := q, activeBlocks := insert (Key (Entry t)) (activeBlocks pr),
                     active := active pr + 1, requests := requests pr - 1\<rparr>)"

definition Pop_post :: "'w::len prq \<Rightarrow> nat option \<Rightarrow> 'w prq \<Rightarrow> bool" where
  "Pop_post s out s' =
     (prq_inv s' \<and> fresh s' = fresh s \<and> only_index task_core UNIV (tasks s) (tasks s')
      \<and> (\<forall>x b. taskMap s' x = Some b \<longrightarrow> taskMap s x = Some b)
      \<and> (pQueue s = [] \<longrightarrow> out = None \<and> s' = s)
      \<and> (pQueue s \<noteq> [] \<longrightarrow>
           (\<exists>p pr q. partners s p = Some pr \<and> set q \<subseteq> set (taskQueue pr)
              \<and> only_index partner_core UNIV
                   ((partners s)(p \<mapsto> started pr q (case out of None \<Rightarrow> None | Some a \<Rightarrow> tasks s a)))
                   (partners s')
              \<and> (out = None \<longrightarrow> q = [])
              \<and> (\<forall>a. out = Some a \<longrightarrow>
                    a \<in> set (taskQueue pr) \<and> a \<notin> set q
                    \<and> (\<exists>t. tasks s a = Some t \<and> \<not> trash t \<and> Target t = p))
              \<and> (\<forall>c t. c \<in> set (taskQueue pr) \<longrightarrow> c \<notin> set q \<longrightarrow> out \<noteq> Some c \<longrightarrow>
                    tasks s c = Some t \<longrightarrow> trash t))))"

lemma Pop_spec:
  assumes inv: "prq_inv s"
  shows "\<exists>out s'. Pop s = Inr (out, s') \<and> Pop_post s out s'"
proof (cases "pQueue s = []")
  case True
  then have "Pop s = Inr (None, s)" by (simp add: Pop_def pq_Len_def)
  moreover have "Pop_post s None s"
    using inv True by (simp add: Pop_post_def only_index_refl)
  ultimately show ?thesis by blast
next
  case False
  note o = prq_invD(1) [OF inv] and i = prq_invD(2) [OF inv]
  from o have ixo: "indexed partner_Index (pQueue s, partners s)" by (simp add: outer_def)
  from partner_pq_Pop [OF ixo False, of partnerLess]
  obtain p pq ps where pop: "pq_Pop partnerLess partner_SetIndex (pQueue s, partners s) = Inr (p, pq, ps)"
    and ix1: "indexed partner_Index (pq, ps)" and ms: "add_mset p (mset pq) = mset (pQueue s)"
    and pn: "p \<notin> set pq" and pix: "partner_Index ps p \<noteq> None"
    and op1: "only_index partner_core (set (pQueue s)) (partners s) ps"
    by blast
  from pix obtain partner where pp: "ps p = Some partner" by (auto simp: partner_Index_def)
  obtain pr0 where pr0: "partners s p = Some pr0" "partner_core pr0 = partner_core partner"
    using only_index_Some [OF op1 pp] by blast
  then have e0: "taskQueue partner = taskQueue pr0" "active partner = active pr0"
    "activeBlocks partner = activeBlocks pr0" "requests partner = requests pr0"
    using partner_core_eq [of pr0 partner] by auto
  have i1: "inner ps (tasks s) (taskMap s) (fresh s)"
    using i op1 by (rule inner_partners)
  let ?q0 = "taskQueue partner"
  have ixq: "indexed task_Index (?q0, tasks s)" using inner_indexed [OF i1 pp] .
  obtain out q ts tm' where d: "drain (?q0, tasks s) (taskMap s) = Inr (out, (q, ts), tm')"
    and post: "drain_post ?q0 (tasks s) (taskMap s) out q ts tm'"
    using drain_spec [OF ixq] by blast
  from post have ix: "indexed task_Index (q, ts)" and sub: "set q \<subseteq> set ?q0"
    and oi: "only_index task_core (set ?q0) (tasks s) ts"
    and tm': "\<And>y. tm' y = (if popped_key ?q0 q (tasks s) y then None else taskMap s y)"
    and trs: "\<And>c t. c \<in> set ?q0 \<Longrightarrow> c \<notin> set q \<Longrightarrow> map_option fst out \<noteq> Some c \<Longrightarrow>
                tasks s c = Some t \<Longrightarrow> trash t"
    and resN: "out = None \<Longrightarrow> q = []"
    and resS: "\<And>a t. out = Some (a, t) \<Longrightarrow> a \<in> set ?q0 \<and> a \<notin> set q \<and> ts a = Some t \<and> \<not> trash t"
    by (simp_all add: drain_post_def)
  define partner' where "partner' =
     (case out of
        None \<Rightarrow> partner\<lparr>taskQueue := q\<rparr>
      | Some (a, t) \<Rightarrow>
          (let started = StartTask (Key (Entry t)) (partner\<lparr>taskQueue := q\<rparr>)
           in started\<lparr>requests := requests started - 1\<rparr>))"
  have pq': "taskQueue partner' = q"
    "activePartner.index partner' = activePartner.index partner"
    by (auto simp: partner'_def StartTask_def Let_def split: option.splits)
  have nopop: "\<not> popped_key ?q0 q (tasks s) y" if y: "taskMap s y = Some b" "b \<in> set q \<or> b \<notin> set ?q0" for y b
  proof
    assume "popped_key ?q0 q (tasks s) y"
    then obtain c t where c: "c \<in> set ?q0" "c \<notin> set q" "tasks s c = Some t" "task_Key t = y"
      by (auto simp: popped_key_def)
    obtain t0 where "tasks s c = Some t0" "taskMap s (task_Key t0) = Some c"
      using inner_queued [OF i1 pp c(1)] by blast
    with c y(1) have "b = c" by simp
    with c y(2) show False by simp
  qed
  have keep: "\<exists>t'. ts b = Some t' \<and> Target t' = Target t \<and> task_Key t' = task_Key t"
    if "tasks s b = Some t" for b t
    using only_index_task [OF oi that] by auto
  have i2: "inner (ps(p \<mapsto> partner')) ts tm' (fresh s)"
  proof (rule inner_frame [OF i1 pp])
    show "\<And>b t. tasks s b = Some t \<Longrightarrow>
            \<exists>t'. ts b = Some t' \<and> Target t' = Target t \<and> task_Key t' = task_Key t"
      by (rule keep)
    show "\<And>b. b \<notin> set ?q0 \<Longrightarrow> b \<notin> set q \<Longrightarrow> task_Index ts b = task_Index (tasks s) b"
      using oi by (simp add: only_index_def task_Index_def)
    show "indexed task_Index (q, ts)" by (rule ix)
    show "\<exists>t. ts b = Some t \<and> Target t = p \<and> tm' (task_Key t) = Some b" if b: "b \<in> set q" for b
    proof -
      have b0: "b \<in> set ?q0" using b sub by auto
      obtain t0 where t0: "tasks s b = Some t0" "Target t0 = p" "taskMap s (task_Key t0) = Some b"
        using inner_queued [OF i1 pp b0] by blast
      obtain t' where t': "ts b = Some t'" "Target t' = Target t0" "task_Key t' = task_Key t0"
        using keep [OF t0(1)] by blast
      have "tm' (task_Key t0) = Some b"
        using nopop [OF t0(3)] b t0(3) by (simp add: tm')
      with t' t0 show ?thesis by simp
    qed
    show "(b \<in> set q \<and> (\<exists>t. ts b = Some t \<and> task_Key t = y))
          \<or> (taskMap s y = Some b \<and> b \<notin> set ?q0)" if tmy: "tm' y = Some b" for y b
    proof -
      from tmy have old: "taskMap s y = Some b" and np: "\<not> popped_key ?q0 q (tasks s) y"
        by (auto simp: tm' split: if_splits)
      show ?thesis
      proof (cases "b \<in> set ?q0")
        case True
        obtain t0 where t0: "tasks s b = Some t0" "task_Key t0 = y"
          using inner_mapped [OF i1 old] by blast
        have "b \<in> set q"
          using np True t0 by (auto simp: popped_key_def)
        with keep [OF t0(1)] t0 show ?thesis by auto
      next
        case False
        with old show ?thesis by simp
      qed
    qed
    show "tm' y = Some b" if "taskMap s y = Some b" "b \<notin> set ?q0" for y b
      using nopop [of y b] that by (simp add: tm')
    show "ts b = None" if "fresh s \<le> b" for b
      using inner_fresh [OF i1 that] only_index_None [OF oi, of b] by simp
    show "taskQueue partner' = q" by (rule pq')
  qed
  let ?ps1 = "ps(p \<mapsto> partner')"
  have ixp: "indexed partner_Index (pq, ?ps1)"
    using ix1 pn by (auto simp: partner_Index_upd intro!: indexed_cong [of partner_Index pq ps])
  have "partner_Index ?ps1 p \<noteq> None" by (simp add: partner_Index_upd)
  from partner_pq_Push [OF ixp pn this, of partnerLess]
  obtain pq' ps' where push: "pq_Push partnerLess partner_SetIndex (pq, ?ps1) p = (pq', ps')"
    and ix2: "indexed partner_Index (pq', ps')" and ms2: "mset pq' = add_mset p (mset pq)"
    and op2: "only_index partner_core (insert p (set pq)) ?ps1 ps'"
    by blast
  let ?s' = "s\<lparr>pQueue := pq', partners := ps', taskMap := tm', tasks := ts\<rparr>"
  have popeq: "Pop s = Inr (map_option fst out, ?s')"
    using False pop pp d push
    by (simp add: Pop_def pq_Len_def partner'_def Let_def split: option.splits prod.splits)
  have "set pq' = set (pQueue s)"
    using ms ms2 by (metis set_mset_mset)
  moreover have nn: "(ps' b = None) = (partners s b = None)" for b
    using only_index_None [OF op2, of b] only_index_None [OF op1, of b] pp pr0
    by (cases "b = p") auto
  then have "dom ps' = dom (partners s)"
    by (simp add: dom_def)
  ultimately have out': "outer pq' ps'"
    using ix2 o by (simp add: outer_def)
  have inn': "inner ps' ts tm' (fresh s)"
    using i2 op2 by (rule inner_partners)
  have inv': "prq_inv ?s'" using out' inn' by (simp add: prq_inv_def)
  have oiU: "only_index task_core UNIV (tasks s) ts"
    using oi by (rule only_index_mono) simp
  have tmsub: "taskMap s x = Some b" if "tm' x = Some b" for x b
    using that by (auto simp: tm' split: if_splits)
  have outa: "a \<in> set (taskQueue pr0) \<and> a \<notin> set q \<and> (\<exists>t. tasks s a = Some t \<and> \<not> trash t \<and> Target t = p)"
    if "map_option fst out = Some a" for a
  proof -
    from that obtain t where ot: "out = Some (a, t)" by (cases out) auto
    from resS [OF ot] have r: "a \<in> set ?q0" "a \<notin> set q" "ts a = Some t" "\<not> trash t" by auto
    obtain t0 where t0: "tasks s a = Some t0" "Target t0 = p"
      using inner_queued [OF i1 pp r(1)] by blast
    obtain t' where "ts a = Some t'" "trash t' = trash t0"
      using only_index_task [OF oi t0(1)] by auto
    with r t0 e0 show ?thesis by auto
  qed
  have core': "partner_core partner'
      = partner_core (started pr0 q (case map_option fst out of None \<Rightarrow> None | Some a \<Rightarrow> tasks s a))"
  proof (cases out)
    case None
    then show ?thesis using e0 by (simp add: partner'_def started_def partner_core_def)
  next
    case (Some at)
    obtain a t where at: "at = (a, t)" by (cases at)
    from resS [of a t] Some at have r: "a \<in> set ?q0" "ts a = Some t" by auto
    obtain t0 where t0: "tasks s a = Some t0"
      using inner_queued [OF i1 pp r(1)] by blast
    obtain t' where "ts a = Some t'" "Entry t' = Entry t0"
      using only_index_task [OF oi t0] by auto
    with r have "Entry t = Entry t0" by simp
    then show ?thesis
      using Some at t0 e0
      by (simp add: partner'_def started_def partner_core_def StartTask_def Let_def)
  qed
  have opU: "only_index partner_core UNIV
      ((partners s)(p \<mapsto> started pr0 q (case map_option fst out of None \<Rightarrow> None | Some a \<Rightarrow> tasks s a)))
      ps'"
    unfolding only_index_def
  proof (intro allI conjI impI)
    fix b :: peerID
    assume "b \<notin> (UNIV :: peerID set)"
    then show "ps' b = ((partners s)(p \<mapsto> started pr0 q (case map_option fst out of None \<Rightarrow> None | Some a \<Rightarrow> tasks s a))) b"
      by simp
  next
    fix b
    have "map_option partner_core (ps' b) = map_option partner_core (?ps1 b)"
      using op2 by (simp add: only_index_def)
    also have "\<dots> = map_option partner_core
        (((partners s)(p \<mapsto> started pr0 q (case map_option fst out of None \<Rightarrow> None | Some a \<Rightarrow> tasks s a))) b)"
      using op1 core' by (simp add: only_index_def)
    finally show "map_option partner_core (ps' b) = map_option partner_core
        (((partners s)(p \<mapsto> started pr0 q (case map_option fst out of None \<Rightarrow> None | Some a \<Rightarrow> tasks s a))) b)" .
  qed
  have trs': "trash t" if "c \<in> set (taskQueue pr0)" "c \<notin> set q" "map_option fst out \<noteq> Some c"
    "tasks s c = Some t" for c t
    using trs [of c t] that e0 by simp
  have "Pop_post s (map_option fst out) ?s'"
    unfolding Pop_post_def
    apply (intro conjI)
         apply (rule inv')
        apply simp
       apply (simp add: oiU)
      apply (simp add: tmsub)
     apply (simp add: False)
    apply (rule impI)
    apply (rule exI [of _ p], rule exI [of _ pr0], rule exI [of _ q])
    apply (intro conjI)
         apply (rule pr0(1))
        using sub e0 apply simp
       using opU apply simp
      using resN apply simp
     using outa apply blast
    using trs' apply blast
    done
  with popeq show ?thesis by blast
qed

lemma inner_partner_upd:
  assumes i: "inner ps ts tm fr" and p: "ps p = Some pr"
    and q: "taskQueue pr' = taskQueue pr"
  shows "inner (ps(p \<mapsto> pr')) ts tm fr"
proof (rule inner_frame [OF i p])
  show "\<And>b t. ts b = Some t \<Longrightarrow> \<exists>t'. ts b = Some t' \<and> Target t' = Target t \<and> task_Key t' = task_Key t"
    by simp
  show "\<And>b. b \<notin> set (taskQueue pr) \<Longrightarrow> b \<notin> set (taskQueue pr) \<Longrightarrow> task_Index ts b = task_Index ts b"
    by simp
  show "indexed task_Index (taskQueue pr, ts)" using inner_indexed [OF i p] .
  show "\<And>b. b \<in> set (taskQueue pr) \<Longrightarrow> \<exists>t. ts b = Some t \<and> Target t = p \<and> tm (task_Key t) = Some b"
    using inner_queued [OF i p] by blast
  show "(b \<in> set (taskQueue pr) \<and> (\<exists>t. ts b = Some t \<and> task_Key t = x))
          \<or> (tm x = Some b \<and> b \<notin> set (taskQueue pr))" if "tm x = Some b" for x b
    using inner_mapped [OF i that] that by auto
  show "\<And>x b. tm x = Some b \<Longrightarrow> b \<notin> set (taskQueue pr) \<Longrightarrow> tm x = Some b" by simp
  show "\<And>b. fr \<le> b \<Longrightarrow> ts b = None" using inner_fresh [OF i] by simp
  show "taskQueue pr' = taskQueue pr" by (rule q)
qed

lemma inner_trash:
  assumes i: "inner ps ts tm fr" and t: "ts a = Some t"
  shows "inner ps (ts(a \<mapsto> t\<lparr>trash := True\<rparr>)) tm fr"
proof (rule innerI)
  let ?ts = "ts(a \<mapsto> t\<lparr>trash := True\<rparr>)"
  have idx: "\<And>b. task_Index ?ts b = task_Index ts b"
    using t by (simp add: task_Index_def)
  have keep: "\<exists>t'. ?ts b = Some t' \<and> Target t' = Target t0 \<and> task_Key t' = task_Key t0"
    if b0: "ts b = Some t0" for b t0
  proof (cases "b = a")
    case True
    with b0 t have "t0 = t" by simp
    with True show ?thesis by (simp add: task_Key_def)
  next
    case False
    with b0 show ?thesis by simp
  qed
  fix p pr assume p: "ps p = Some pr"
  show "indexed task_Index (taskQueue pr, ?ts)"
    using inner_indexed [OF i p] idx by (auto intro!: indexed_cong [of task_Index _ ts])
  fix b assume "b \<in> set (taskQueue pr)"
  then obtain t0 where t0: "ts b = Some t0" "Target t0 = p" "tm (task_Key t0) = Some b"
    using inner_queued [OF i p] by blast
  with keep [OF t0(1)] show "\<exists>t. ?ts b = Some t \<and> Target t = p \<and> tm (task_Key t) = Some b"
    by auto
next
  let ?ts = "ts(a \<mapsto> t\<lparr>trash := True\<rparr>)"
  fix x b assume "tm x = Some b"
  then obtain t0 pr where t0: "ts b = Some t0" "task_Key t0 = x" "ps (Target t0) = Some pr"
    "b \<in> set (taskQueue pr)"
    using inner_mapped [OF i] by blast
  show "\<exists>t pr. ?ts b = Some t \<and> task_Key t = x \<and> ps (Target t) = Some pr \<and> b \<in> set (taskQueue pr)"
  proof (cases "b = a")
    case True
    with t0 t have "t0 = t" by simp
    with True t0 show ?thesis by (auto simp: task_Key_def)
  next
    case False
    with t0 show ?thesis by auto
  qed
next
  fix b assume "fr \<le> b"
  then have "ts b = None" using inner_fresh [OF i] by simp
  with t show "(ts(a \<mapsto> t\<lparr>trash := True\<rparr>)) b = None" by auto
qed

lemma Remove_spec:
  assumes inv: "prq_inv s" and r: "Remove k p s = Inr s'"
  shows "prq_inv s' \<and>
     (s' = s \<and> taskMap s (taskKey p k) = None
      \<or> (\<exists>a t pr. taskMap s (taskKey p k) = Some a \<and> tasks s a = Some t \<and> partners s p = Some pr
            \<and> s' = s\<lparr>tasks := (tasks s)(a \<mapsto> t\<lparr>trash := True\<rparr>),
                      partners := (partners s)(p \<mapsto> pr\<lparr>requests := requests pr - 1\<rparr>)\<rparr>))"
proof (cases "taskMap s (taskKey p k)")
  case None
  with r inv show ?thesis by (simp add: Remove_def)
next
  case (Some a)
  note o = prq_invD(1) [OF inv] and i = prq_invD(2) [OF inv]
  from r Some obtain t pr where t: "tasks s a = Some t" and p: "partners s p = Some pr"
    and s': "s' = s\<lparr>tasks := (tasks s)(a \<mapsto> t\<lparr>trash := True\<rparr>),
                     partners := (partners s)(p \<mapsto> pr\<lparr>requests := requests pr - 1\<rparr>)\<rparr>"
    by (auto simp: Remove_def split: option.splits)
  have "inner (partners s) ((tasks s)(a \<mapsto> t\<lparr>trash := True\<rparr>)) (taskMap s) (fresh s)"
    using i t by (rule inner_trash)
  then have "inner ((partners s)(p \<mapsto> pr\<lparr>requests := requests pr - 1\<rparr>))
               ((tasks s)(a \<mapsto> t\<lparr>trash := True\<rparr>)) (taskMap s) (fresh s)"
    using p by (rule inner_partner_upd) simp
  moreover have "outer (pQueue s) ((partners s)(p \<mapsto> pr\<lparr>requests := requests pr - 1\<rparr>))"
    using o p by (rule outer_upd) simp
  ultimately have "prq_inv s'" by (simp add: s' prq_inv_def)
  with Some t p s' show ?thesis by simp
qed

lemma outer_Update:
  assumes o: "outer pq0 ps0" and u: "pq_Update partnerLess partner_SetIndex (pq0, ps0) i = Inr (pq, ps)"
  shows "outer pq ps \<and> only_index partner_core UNIV ps0 ps"
proof -
  from o have "indexed partner_Index (pq0, ps0)" by (simp add: outer_def)
  from partner_pq_Update [OF this u]
  have ix: "indexed partner_Index (pq, ps)" and m: "mset pq = mset pq0"
    and oi: "only_index partner_core (set pq0) ps0 ps"
    by auto
  have "(ps b = None) = (ps0 b = None)" for b using only_index_None [OF oi] .
  then have "dom ps = dom ps0" by (simp add: dom_def)
  moreover have "set pq = set pq0" using m by (metis set_mset_mset)
  ultimately have "outer pq ps" using ix o by (simp add: outer_def)
  moreover have "only_index partner_core UNIV ps0 ps"
    using oi by (rule only_index_mono) simp
  ultimately show ?thesis by simp
qed

lemma outer_Update_ok:
  assumes "outer pq0 ps0" "ps0 p = Some pr"
  shows "\<exists>pq ps. pq_Update partnerLess partner_SetIndex (pq0, ps0) (activePartner.index pr) = Inr (pq, ps)"
  using pq_Update_in_range [of "activePartner.index pr" "(pq0, ps0)" partnerLess partner_SetIndex]
        outer_index [OF assms] by auto

lemma Done_spec:
  assumes inv: "prq_inv s" and t: "tasks s a = Some t" and p: "partners s (Target t) = Some pr"
  shows "(0 \<le> sint (active pr - 1) \<longrightarrow> (\<exists>s'. Done a s = Inr s'))
       \<and> (\<forall>s'. Done a s = Inr s' \<longrightarrow>
             prq_inv s' \<and> tasks s' = tasks s \<and> taskMap s' = taskMap s \<and> fresh s' = fresh s
             \<and> 0 \<le> sint (active pr - 1)
             \<and> only_index partner_core UNIV
                  ((partners s)(Target t \<mapsto> pr\<lparr>activeBlocks := activeBlocks pr - {Key (Entry t)},
                                                active := active pr - 1\<rparr>))
                  (partners s'))"
proof -
  note o = prq_invD(1) [OF inv] and i = prq_invD(2) [OF inv]
  let ?pr = "pr\<lparr>activeBlocks := activeBlocks pr - {Key (Entry t)}, active := active pr - 1\<rparr>"
  let ?ps0 = "(partners s)(Target t \<mapsto> ?pr)"
  have o0: "outer (pQueue s) ?ps0"
    using o p by (rule outer_upd) simp
  have d: "Done a s =
      (if sint (active pr - 1) < 0 then Inl (Panic ''more tasks finished than started!'')
       else case pq_Update partnerLess partner_SetIndex (pQueue s, ?ps0) (activePartner.index ?pr) of
              Inl e \<Rightarrow> Inl e
            | Inr (pq, ps) \<Rightarrow> Inr (s\<lparr>pQueue := pq, partners := ps\<rparr>))"
    using t p by (simp add: Done_def TaskDone_def Let_def)
  have ok: "\<exists>s'. Done a s = Inr s'" if "0 \<le> sint (active pr - 1)"
  proof -
    obtain pq ps where "pq_Update partnerLess partner_SetIndex (pQueue s, ?ps0)
        (activePartner.index ?pr) = Inr (pq, ps)"
      using outer_Update_ok [OF o0, of "Target t" ?pr] by auto
    with that d show ?thesis by simp
  qed
  have post: "prq_inv s' \<and> tasks s' = tasks s \<and> taskMap s' = taskMap s \<and> fresh s' = fresh s
             \<and> 0 \<le> sint (active pr - 1) \<and> only_index partner_core UNIV ?ps0 (partners s')"
    if "Done a s = Inr s'" for s'
  proof -
    from that d have pos: "0 \<le> sint (active pr - 1)" by (auto split: if_splits)
    with that d obtain pq ps where
        u: "pq_Update partnerLess partner_SetIndex (pQueue s, ?ps0) (activePartner.index ?pr) = Inr (pq, ps)"
      and s': "s' = s\<lparr>pQueue := pq, partners := ps\<rparr>"
      by (auto split: if_splits sum.splits)
    from outer_Update [OF o0 u] have o': "outer pq ps" and oi: "only_index partner_core UNIV ?ps0 ps"
      by auto
    have "inner ?ps0 (tasks s) (taskMap s) (fresh s)"
      using i p by (rule inner_partner_upd) simp
    then have "inner ps (tasks s) (taskMap s) (fresh s)"
      using oi by (rule inner_partners)
    with o' oi pos show ?thesis by (simp add: s' prq_inv_def)
  qed
  from ok post show ?thesis by blast
qed

lemma Done_inv: "prq_inv s \<Longrightarrow> Done a s = Inr s' \<Longrightarrow> prq_inv s'"
proof -
  assume inv: "prq_inv s" and d: "Done a s = Inr s'"
  from d obtain t pr where "tasks s a = Some t" "partners s (Target t) = Some pr"
    by (auto simp: Done_def split: option.splits)
  from Done_spec [OF inv this] d show ?thesis by blast
qed

text \<open>\<^verbatim>\<open>Push\<close> leaves the active blocks, the active counters and the trash marks alone.\<close>

lemma Push_frame:
  assumes inv0: "prq_inv s0" and push: "Push entry to now s0 = Inr s'"
  shows "prq_inv s'
       \<and> (\<forall>p pr. partners s0 p = Some pr \<longrightarrow>
             (\<exists>pr'. partners s' p = Some pr' \<and> activeBlocks pr' = activeBlocks pr
                    \<and> active pr' = active pr))
       \<and> (\<forall>b t. tasks s0 b = Some t \<longrightarrow>
             (\<exists>t'. tasks s' b = Some t' \<and> trash t' = trash t \<and> Target t' = Target t
                   \<and> Key (Entry t') = Key (Entry t)))"
proof -
  let ?s = "addPartner to s0"
  let ?x = "taskKey to (Key entry)"
  note ap = addPartner_spec [OF inv0, of to]
  from ap have inv: "prq_inv ?s" and ts0: "tasks ?s = tasks s0" by simp_all
  from ap obtain partner where p: "partners ?s to = Some partner" by auto
  have ps0: "\<exists>pr'. partners ?s p = Some pr' \<and> partner_core pr' = partner_core pr"
    if "partners s0 p = Some pr" for p pr
  proof (cases "p = to")
    case True
    with that ap show ?thesis by auto
  next
    case False
    with ap have "map_option partner_core (partners ?s p) = map_option partner_core (partners s0 p)"
      by blast
    with that show ?thesis by auto
  qed
  have fin: ?thesis
    if inv': "prq_inv s'"
      and pc: "\<And>p pr. partners ?s p = Some pr \<Longrightarrow>
                 \<exists>pr'. partners s' p = Some pr' \<and> activeBlocks pr' = activeBlocks pr \<and> active pr' = active pr"
      and tc: "\<And>b t. tasks ?s b = Some t \<Longrightarrow>
                 \<exists>t'. tasks s' b = Some t' \<and> trash t' = trash t \<and> Target t' = Target t
                      \<and> Key (Entry t') = Key (Entry t)"
  proof (intro conjI allI impI)
    show "prq_inv s'" by (rule inv')
  next
    fix p pr assume "partners s0 p = Some pr"
    then obtain pr1 where pr1: "partners ?s p = Some pr1" "partner_core pr1 = partner_core pr"
      using ps0 by blast
    with pc [OF pr1(1)] partner_core_eq [of pr1 pr]
    show "\<exists>pr'. partners s' p = Some pr' \<and> activeBlocks pr' = activeBlocks pr \<and> active pr' = active pr"
      by auto
  next
    fix b t assume "tasks s0 b = Some t"
    then show "\<exists>t'. tasks s' b = Some t' \<and> trash t' = trash t \<and> Target t' = Target t
                  \<and> Key (Entry t') = Key (Entry t)"
      using tc [of b t] ts0 by simp
  qed
  show ?thesis
  proof (cases "taskMap ?s ?x")
    case (Some a)
    from push p Some obtain task where t: "tasks ?s a = Some task"
      by (auto simp: Push_def Let_def split: option.splits)
    let ?t1 = "task\<lparr>Entry := (Entry task)\<lparr>Priority := Priority entry\<rparr>\<rparr>"
    let ?u = "pq_Update (wrapCmp V1) task_SetIndex
                (taskQueue partner, (tasks ?s)(a \<mapsto> ?t1)) (peerRequestTask.index task)"
    from push p Some t obtain q ts where u: "?u = Inr (q, ts)"
      and s': "s' = ?s\<lparr>partners := (partners ?s)(to \<mapsto> partner\<lparr>taskQueue := q\<rparr>), tasks := ts\<rparr>"
      by (cases ?u) (auto simp: Push_def Let_def)
    from Push_update_path [OF inv p Some t u]
    have inv': "prq_inv s'"
      and oi: "only_index task_core (set (taskQueue partner)) ((tasks ?s)(a \<mapsto> ?t1)) ts"
      unfolding s' by simp_all
    show ?thesis
    proof (rule fin [OF inv'])
      fix p pr assume "partners ?s p = Some pr"
      then show "\<exists>pr'. partners s' p = Some pr' \<and> activeBlocks pr' = activeBlocks pr \<and> active pr' = active pr"
        using p by (cases "p = to") (auto simp: s')
    next
      fix b t0 assume b0: "tasks ?s b = Some t0"
      have "\<exists>t1. ((tasks ?s)(a \<mapsto> ?t1)) b = Some t1 \<and> trash t1 = trash t0 \<and> Target t1 = Target t0
                \<and> Key (Entry t1) = Key (Entry t0)"
      proof (cases "b = a")
        case True
        with b0 t have "t0 = task" by simp
        with True show ?thesis by simp
      next
        case False
        with b0 show ?thesis by simp
      qed
      then obtain t1 where t1: "((tasks ?s)(a \<mapsto> ?t1)) b = Some t1" "trash t1 = trash t0"
        "Target t1 = Target t0" "Key (Entry t1) = Key (Entry t0)" by blast
      from only_index_task [OF oi t1(1)] t1
      show "\<exists>t'. tasks s' b = Some t' \<and> trash t' = trash t0 \<and> Target t' = Target t0
                \<and> Key (Entry t') = Key (Entry t0)"
        by (auto simp: s')
    qed
  next
    case None
    show ?thesis
    proof (cases "Key entry \<in> activeBlocks partner")
      case True
      with push p None have s': "s' = ?s" by (simp add: Push_def Let_def)
      show ?thesis by (rule fin) (use inv s' in auto)
    next
      case False
      let ?task = "\<lparr>Entry = entry, Target = to, trash = False, created = now,
                     peerRequestTask.index = 0\<rparr>"
      have k: "task_Key ?task = ?x" by (simp add: task_Key_def)
      obtain q ts where tp: "pq_Push (wrapCmp V1) task_SetIndex
           (taskQueue partner, (tasks ?s)(fresh ?s \<mapsto> ?task)) (fresh ?s) = (q, ts)"
        by (cases "pq_Push (wrapCmp V1) task_SetIndex
           (taskQueue partner, (tasks ?s)(fresh ?s \<mapsto> ?task)) (fresh ?s)")
      let ?pr = "partner\<lparr>taskQueue := q, requests := requests partner + 1\<rparr>"
      let ?u = "pq_Update partnerLess partner_SetIndex
                  (pQueue ?s, (partners ?s)(to \<mapsto> ?pr)) (activePartner.index partner)"
      from push p None False tp obtain pq ps where u: "?u = Inr (pq, ps)"
        and s': "s' = ?s\<lparr>pQueue := pq, partners := ps,
                          taskMap := (taskMap ?s)(task_Key ?task \<mapsto> fresh ?s),
                          tasks := ts, fresh := Suc (fresh ?s)\<rparr>"
        by (cases ?u) (auto simp: Push_def Let_def)
      have m: "taskMap ?s (task_Key ?task) = None" using None k by simp
      from Push_new_path [OF inv p m _ tp u]
      have inv': "prq_inv s'"
        and oi: "only_index task_core (insert (fresh ?s) (set (taskQueue partner)))
                   ((tasks ?s)(fresh ?s \<mapsto> ?task)) ts"
        and op: "only_index partner_core (set (pQueue ?s)) ((partners ?s)(to \<mapsto> ?pr)) ps"
        unfolding s' by simp_all
      have anone: "tasks ?s (fresh ?s) = None"
        using inner_fresh [OF prq_invD(2) [OF inv], of "fresh ?s"] by simp
      show ?thesis
      proof (rule fin [OF inv'])
        fix p0 pr0 assume p0: "partners ?s p0 = Some pr0"
        have "\<exists>pr1. ((partners ?s)(to \<mapsto> ?pr)) p0 = Some pr1 \<and> activeBlocks pr1 = activeBlocks pr0
                  \<and> active pr1 = active pr0"
          using p0 p by (cases "p0 = to") auto
        then obtain pr1 where pr1: "((partners ?s)(to \<mapsto> ?pr)) p0 = Some pr1"
          "activeBlocks pr1 = activeBlocks pr0" "active pr1 = active pr0" by blast
        obtain pr' where "ps p0 = Some pr'" "partner_core pr' = partner_core pr1"
          using only_index_Some' [OF op pr1(1)] by blast
        with pr1 partner_core_eq [of pr' pr1]
        show "\<exists>pr'. partners s' p0 = Some pr' \<and> activeBlocks pr' = activeBlocks pr0
                  \<and> active pr' = active pr0"
          by (auto simp: s')
      next
        fix b t0 assume b0: "tasks ?s b = Some t0"
        then have "b \<noteq> fresh ?s" using anone by auto
        with b0 have "((tasks ?s)(fresh ?s \<mapsto> ?task)) b = Some t0" by simp
        from only_index_task [OF oi this]
        show "\<exists>t'. tasks s' b = Some t' \<and> trash t' = trash t0 \<and> Target t' = Target t0
                  \<and> Key (Entry t') = Key (Entry t0)"
          by (auto simp: s')
      qed
    qed
  qed
qed


text \<open>The invariant holds initially and along every run.\<close>

lemma newPRQ_inv: "prq_inv newPRQ"
  by (simp add: prq_inv_def newPRQ_def outer_def inner_def indexed_def)

lemma Pop_inv: "prq_inv s \<Longrightarrow> Pop s = Inr (out, s') \<Longrightarrow> prq_inv s'"
  using Pop_spec [of s] by (auto simp: Pop_post_def)

lemma step_inv: "prq_inv s \<Longrightarrow> step x s = Inr s' \<Longrightarrow> prq_inv s'"
proof (cases x)
  case (OpPush entry to now)
  assume "prq_inv s" "step x s = Inr s'"
  with OpPush show ?thesis using Push_frame [of s entry to now s'] by simp
next
  case OpPop
  assume "prq_inv s" "step x s = Inr s'"
  with OpPop show ?thesis
    by (auto split: sum.splits dest: Pop_inv)
next
  case (OpRemove k p)
  assume "prq_inv s" "step x s = Inr s'"
  with OpRemove show ?thesis using Remove_spec [of s k p s'] by simp
next
  case (OpDone a)
  assume "prq_inv s" "step x s = Inr s'"
  with OpDone show ?thesis using Done_inv [of s a s'] by simp
qed

lemma run_inv: "prq_inv s \<Longrightarrow> run xs s = Inr s' \<Longrightarrow> prq_inv s'"
proof (induction xs arbitrary: s)
  case Nil
  then show ?case by simp
next
  case (Cons x xs)
  from Cons.prems(2) obtain s1 where s1: "step x s = Inr s1" "run xs s1 = Inr s'"
    by (auto split: sum.splits)
  from step_inv [OF Cons.prems(1) s1(1)] have "prq_inv s1" .
  then show ?case using s1(2) by (rule Cons.IH)
qed

lemma reachable_inv: "run xs newPRQ = Inr s \<Longrightarrow> prq_inv s"
  using newPRQ_inv by (rule run_inv)

section \<open>Counters as machine words\<close>

text \<open>Below \<open>2 ^ (LENGTH('w) - 1)\<close> the signed reading of a counter is the number counted.\<close>

lemma sint_counter:
  assumes "n < 2 ^ (LENGTH('w::len) - 1)"
  shows "sint (of_nat n :: 'w word) = int n"
proof -
  have "int n < int (2 ^ (LENGTH('w) - 1))"
    using assms by (simp only: of_nat_less_iff)
  then have "int n < 2 ^ (LENGTH('w) - 1)" by simp
  moreover have "- (2 ^ (LENGTH('w) - 1)) \<le> int n"
    by (rule order_trans [of _ 0]) simp_all
  ultimately have "signed_take_bit (LENGTH('w) - 1) (int n) = int n"
    by (simp only: signed_take_bit_int_eq_self)
  moreover have "(of_nat n :: 'w word) = word_of_int (int n)" by simp
  ultimately show ?thesis by (simp only: sint_sbintrunc')
qed

text \<open>A counter that is not the least number of its width is decremented without wrap-around.\<close>

lemma sint_decrement:
  fixes x :: "'w::len word"
  assumes "sint x \<noteq> - (2 ^ (LENGTH('w) - 1))"
  shows "sint (x - 1) = sint x - 1"
proof -
  have "x - 1 = x + (- 1)" by simp
  then have "sint (x - 1) = signed_take_bit (LENGTH('w) - 1) (sint x + sint (- 1 :: 'w word))"
    by (simp only: sint_word_ariths)
  also have "\<dots> = signed_take_bit (LENGTH('w) - 1) (sint x - 1)" by simp
  also have "\<dots> = sint x - 1"
  proof (rule signed_take_bit_int_eq_self)
    have "- (2 ^ (LENGTH('w) - 1)) \<le> sint x" by (rule sint_ge)
    with assms show "- (2 ^ (LENGTH('w) - 1)) \<le> sint x - 1" by simp
    have "sint x < 2 ^ (LENGTH('w) - 1)" by (rule sint_lt)
    then show "sint x - 1 < 2 ^ (LENGTH('w) - 1)" by simp
  qed
  finally show ?thesis .
qed


section \<open>The tasks of the queue\<close>

text \<open>
  The tasks that exist in the queue are those on the task queues of the partners:
  \<open>queued s\<close> lists their addresses, partner by partner in the order of the outer
  queue, and \<open>task_pair s a\<close> is the peer and the key of the task at address \<open>a\<close>.
\<close>

definition queueOf :: "'w::len prq \<Rightarrow> peerID \<Rightarrow> nat list" where
  "queueOf s p = (case partners s p of None \<Rightarrow> [] | Some pr \<Rightarrow> taskQueue pr)"

definition queued :: "'w::len prq \<Rightarrow> nat list" where
  "queued s = concat (map (queueOf s) (pQueue s))"

definition task_pair :: "'w::len prq \<Rightarrow> nat \<Rightarrow> (peerID \<times> key) option" where
  "task_pair s a = map_option (\<lambda>t. (Target t, Key (Entry t))) (tasks s a)"



lemma queueOf_Some [simp]: "partners s p = Some pr \<Longrightarrow> queueOf s p = taskQueue pr"
  by (simp add: queueOf_def)

lemma queueOf_None [simp]: "partners s p = None \<Longrightarrow> queueOf s p = []"
  by (simp add: queueOf_def)

lemma queued_iff:
  assumes "prq_inv s"
  shows "a \<in> set (queued s) \<longleftrightarrow> (\<exists>p pr. partners s p = Some pr \<and> a \<in> set (taskQueue pr))"
proof
  assume "a \<in> set (queued s)"
  then obtain p where "p \<in> set (pQueue s)" "a \<in> set (queueOf s p)"
    by (auto simp: queued_def)
  then show "\<exists>p pr. partners s p = Some pr \<and> a \<in> set (taskQueue pr)"
    by (cases "partners s p") auto
next
  assume "\<exists>p pr. partners s p = Some pr \<and> a \<in> set (taskQueue pr)"
  then obtain p pr where p: "partners s p = Some pr" "a \<in> set (taskQueue pr)" by blast
  then have "p \<in> set (pQueue s)"
    using outer_in_queue [OF prq_invD(1) [OF assms], of p] by simp
  with p show "a \<in> set (queued s)"
    by (auto simp: queued_def intro!: bexI [of _ p])
qed












text \<open>The equations that evaluate the operations of the queue on a given state.\<close>

lemmas prq_eval =
  newPRQ_def Push_def addPartner_def Let_def pq_Push_def pq_Update_def pq_Pop_def
  pq_Len_def up.simps down.simps Swap_def child_def partnerLess_def partnerCompare_def
  partner_SetIndex_def wrapCmp_def V1_def FIFO_def task_SetIndex_def newActivePartner_def
  taskKey_def task_Key_def Pop_def drain.simps StartTask_def TaskDone_def Done_def Remove_def
  queued_def queueOf_def task_pair_def
section \<open>One task for a peer and a key\<close>



section \<open>Tasks that were removed\<close>






section \<open>Tasks in flight\<close>

text \<open>
  The \<^verbatim>\<open>Done\<close> callback of a task holds the partner of the task's peer and the key of
  its entry, and is the one place that calls \<^verbatim>\<open>TaskDone\<close>. \<open>fires p k x s\<close>: the
  operation \<open>x\<close> on the state \<open>s\<close> is the callback of a task of peer \<open>p\<close> for key \<open>k\<close>;
  \<open>quiet p k xs s\<close>: none of the operations \<open>xs\<close>, run from \<open>s\<close>, is.
\<close>

definition fires :: "peerID \<Rightarrow> key \<Rightarrow> operation \<Rightarrow> 'w::len prq \<Rightarrow> bool" where
  "fires p k x s =
     (case x of
        OpDone b \<Rightarrow> (case tasks s b of None \<Rightarrow> False | Some t \<Rightarrow> Target t = p \<and> Key (Entry t) = k)
      | _ \<Rightarrow> False)"

fun quiet :: "peerID \<Rightarrow> key \<Rightarrow> operation list \<Rightarrow> 'w::len prq \<Rightarrow> bool" where
  "quiet p k [] s = True"
| "quiet p k (x # xs) s =
     (\<not> fires p k x s \<and> (case step x s of Inl e \<Rightarrow> True | Inr s' \<Rightarrow> quiet p k xs s'))"

text \<open>The peer and the key of a task never change.\<close>

lemma task_target_step:
  assumes inv: "prq_inv s" and t: "tasks s a = Some t" and st: "step x s = Inr s'"
  shows "\<exists>t'. tasks s' a = Some t' \<and> Target t' = Target t \<and> Key (Entry t') = Key (Entry t)"
proof (cases x)
  case (OpPush entry to now)
  with st have "Push entry to now s = Inr s'" by simp
  from Push_frame [OF inv this] t show ?thesis by blast
next
  case OpPop
  with st obtain out where p: "Pop s = Inr (out, s')"
    by (auto split: sum.splits)
  from Pop_spec [OF inv] p have "Pop_post s out s'" by auto
  then have "only_index task_core UNIV (tasks s) (tasks s')"
    by (simp add: Pop_post_def)
  from only_index_Some' [OF this t] show ?thesis
    by (auto simp: task_core_def)
next
  case (OpRemove k p)
  with st have "Remove k p s = Inr s'" by simp
  from Remove_spec [OF inv this] t show ?thesis by auto
next
  case (OpDone b)
  with st have "Done b s = Inr s'" by simp
  then obtain u pr where "tasks s b = Some u" "partners s (Target u) = Some pr"
    by (auto simp: Done_def split: option.splits)
  from Done_spec [OF inv this] \<open>Done b s = Inr s'\<close> have "tasks s' = tasks s" by blast
  with t show ?thesis by simp
qed

text \<open>A key stays in the active blocks of a partner over every operation that is not
  the callback of a task of that peer for that key.\<close>

lemma active_step:
  assumes inv: "prq_inv s" and p: "partners s p = Some pr" and k: "k \<in> activeBlocks pr"
    and st: "step x s = Inr s'" and q: "\<not> fires p k x s"
  shows "\<exists>pr'. partners s' p = Some pr' \<and> k \<in> activeBlocks pr'"
proof (cases x)
  case (OpPush entry to now)
  with st have "Push entry to now s = Inr s'" by simp
  from Push_frame [OF inv this] p k show ?thesis by fastforce
next
  case OpPop
  with st obtain out where pop: "Pop s = Inr (out, s')"
    by (auto split: sum.splits)
  from Pop_spec [OF inv] pop have post: "Pop_post s out s'" by auto
  show ?thesis
  proof (cases "pQueue s = []")
    case True
    with post have "s' = s" by (simp add: Pop_post_def)
    with p k show ?thesis by simp
  next
    case False
    with post obtain p0 pr0 q0 where
      oi: "only_index partner_core UNIV
             ((partners s)(p0 \<mapsto> started pr0 q0 (case out of None \<Rightarrow> None | Some a \<Rightarrow> tasks s a)))
             (partners s')"
      and p0: "partners s p0 = Some pr0"
      unfolding Pop_post_def by blast
    let ?st = "started pr0 q0 (case out of None \<Rightarrow> None | Some a \<Rightarrow> tasks s a)"
    have "\<exists>r. ((partners s)(p0 \<mapsto> ?st)) p = Some r \<and> k \<in> activeBlocks r"
    proof (cases "p = p0")
      case True
      with p p0 have "pr0 = pr" by simp
      with k have "k \<in> activeBlocks ?st"
        by (simp add: started_def split: option.splits)
      with True show ?thesis by simp
    next
      case False
      with p k show ?thesis by simp
    qed
    then obtain r where r: "((partners s)(p0 \<mapsto> ?st)) p = Some r" "k \<in> activeBlocks r" by blast
    from only_index_Some' [OF oi r(1)] r(2) show ?thesis
      by (auto simp: partner_core_def)
  qed
next
  case (OpRemove k' p')
  with st have "Remove k' p' s = Inr s'" by simp
  from Remove_spec [OF inv this] p k show ?thesis by auto
next
  case (OpDone b)
  with st have d: "Done b s = Inr s'" by simp
  then obtain u pr0 where u: "tasks s b = Some u" "partners s (Target u) = Some pr0"
    by (auto simp: Done_def split: option.splits)
  let ?pr = "pr0\<lparr>activeBlocks := activeBlocks pr0 - {Key (Entry u)}, active := active pr0 - 1\<rparr>"
  from Done_spec [OF inv u] d
  have oi: "only_index partner_core UNIV ((partners s)(Target u \<mapsto> ?pr)) (partners s')"
    by blast
  from q OpDone u have ne: "\<not> (Target u = p \<and> Key (Entry u) = k)"
    by (simp add: fires_def)
  have "\<exists>r. ((partners s)(Target u \<mapsto> ?pr)) p = Some r \<and> k \<in> activeBlocks r"
  proof (cases "p = Target u")
    case True
    with p u have "pr0 = pr" by simp
    with k ne True have "k \<in> activeBlocks ?pr" by auto
    with True show ?thesis by simp
  next
    case False
    with p k show ?thesis by simp
  qed
  then obtain r where r: "((partners s)(Target u \<mapsto> ?pr)) p = Some r" "k \<in> activeBlocks r"
    by blast
  from only_index_Some' [OF oi r(1)] r(2) show ?thesis
    by (auto simp: partner_core_def)
qed

lemma active_run:
  "prq_inv s \<Longrightarrow> tasks s a = Some t \<Longrightarrow> partners s p = Some pr \<Longrightarrow> k \<in> activeBlocks pr \<Longrightarrow>
   quiet p k xs s \<Longrightarrow> run xs s = Inr s' \<Longrightarrow>
     prq_inv s'
     \<and> (\<exists>t'. tasks s' a = Some t' \<and> Target t' = Target t \<and> Key (Entry t') = Key (Entry t))
     \<and> (\<exists>pr'. partners s' p = Some pr' \<and> k \<in> activeBlocks pr')"
proof (induction xs arbitrary: s t pr)
  case Nil
  then show ?case by simp
next
  case (Cons x xs)
  from Cons.prems(6) obtain s1 where s1: "step x s = Inr s1" "run xs s1 = Inr s'"
    by (auto split: sum.splits)
  from Cons.prems(5) s1(1) have q: "\<not> fires p k x s" "quiet p k xs s1" by simp_all
  from step_inv [OF Cons.prems(1) s1(1)] have inv1: "prq_inv s1" .
  from task_target_step [OF Cons.prems(1,2) s1(1)] obtain t1 where
    t1: "tasks s1 a = Some t1" "Target t1 = Target t" "Key (Entry t1) = Key (Entry t)" by blast
  from active_step [OF Cons.prems(1,3,4) s1(1) q(1)] obtain pr1 where
    pr1: "partners s1 p = Some pr1" "k \<in> activeBlocks pr1" by blast
  from Cons.IH [OF inv1 t1(1) pr1 q(2) s1(2)] t1 show ?case by simp
qed

text \<open>What \<^verbatim>\<open>Pop\<close> does to the partner of the task it returns.\<close>

lemma Pop_started:
  assumes inv: "prq_inv s" and pop: "Pop s = Inr (Some a, s')"
  shows "\<exists>t pr pr'. tasks s a = Some t \<and> \<not> trash t \<and> a \<in> set (taskQueue pr)
           \<and> partners s (Target t) = Some pr \<and> partners s' (Target t) = Some pr'
           \<and> activeBlocks pr' = insert (Key (Entry t)) (activeBlocks pr)
           \<and> active pr' = active pr + 1 \<and> requests pr' = requests pr - 1
           \<and> a \<notin> set (taskQueue pr')"
proof -
  from Pop_spec [OF inv] pop have post: "Pop_post s (Some a) s'" by auto
  have ne: "pQueue s \<noteq> []"
  proof
    assume "pQueue s = []"
    with post show False by (simp add: Pop_post_def)
  qed
  with post obtain p pr q t where
    p: "partners s p = Some pr"
    and oi: "only_index partner_core UNIV ((partners s)(p \<mapsto> started pr q (tasks s a))) (partners s')"
    and a: "a \<in> set (taskQueue pr)" "a \<notin> set q"
    and t: "tasks s a = Some t" "\<not> trash t" "Target t = p"
    unfolding Pop_post_def by auto
  have "((partners s)(p \<mapsto> started pr q (tasks s a))) p = Some (started pr q (Some t))"
    using t by simp
  from only_index_Some' [OF oi this] obtain pr' where
    pr': "partners s' p = Some pr'" "partner_core pr' = partner_core (started pr q (Some t))"
    by blast
  from pr'(2) have "activeBlocks pr' = insert (Key (Entry t)) (activeBlocks pr)"
    "active pr' = active pr + 1" "requests pr' = requests pr - 1" "taskQueue pr' = q"
    by (simp_all add: partner_core_def started_def)
  with p pr'(1) a t show ?thesis by auto
qed

text \<open>
  Claim C3. In a state reached from the new queue, let \<^verbatim>\<open>Pop\<close> return the task at
  \<open>a\<close>, a task of peer \<open>p\<close> for key \<open>k\<close>. After the \<^verbatim>\<open>Pop\<close>, \<open>k\<close> is in the active
  blocks of \<open>p\<close>, and \<^verbatim>\<open>requests\<close> of \<open>p\<close> is one less than before: the program's
  \<^verbatim>\<open>requests--\<close> on a Go \<^verbatim>\<open>int\<close>, which is one less as a number unless the counter was
  the least number of its width. Over all operations that follow, as long as none is
  the \<^verbatim>\<open>Done\<close> callback of a task of \<open>p\<close> for \<open>k\<close>, \<open>k\<close> stays in the active blocks of
  \<open>p\<close>; and when then the callback of the task returns, it has taken \<open>k\<close> out of
  the active blocks and decremented \<^verbatim>\<open>active\<close>.
\<close>

theorem Pop_starts_task:
  fixes s :: "'w::len prq"
  shows
  "run ops newPRQ = Inr s \<and> Pop s = Inr (Some a, s') \<longrightarrow>
   (\<exists>t pr pr'. tasks s a = Some t \<and> \<not> trash t
      \<and> partners s (Target t) = Some pr \<and> partners s' (Target t) = Some pr'
      \<and> Key (Entry t) \<in> activeBlocks pr'
      \<and> requests pr' = requests pr - 1
      \<and> (sint (requests pr) \<noteq> - (2 ^ (LENGTH('w) - 1)) \<longrightarrow>
           sint (requests pr') = sint (requests pr) - 1)
      \<and> (\<forall>xs s2. quiet (Target t) (Key (Entry t)) xs s' \<and> run xs s' = Inr s2 \<longrightarrow>
            (\<exists>pr2. partners s2 (Target t) = Some pr2 \<and> Key (Entry t) \<in> activeBlocks pr2
               \<and> (\<forall>s3. Done a s2 = Inr s3 \<longrightarrow>
                     (\<exists>pr3. partners s3 (Target t) = Some pr3
                        \<and> activeBlocks pr3 = activeBlocks pr2 - {Key (Entry t)}
                        \<and> active pr3 = active pr2 - 1)))))"
proof
  assume h: "run ops newPRQ = Inr s \<and> Pop s = Inr (Some a, s')"
  then have inv: "prq_inv s" using reachable_inv by blast
  from h have pop: "Pop s = Inr (Some a, s')" by simp
  from Pop_inv [OF inv pop] have inv': "prq_inv s'" .
  from Pop_started [OF inv pop] obtain t pr pr' where
    t: "tasks s a = Some t" "\<not> trash t"
    and p: "partners s (Target t) = Some pr" "partners s' (Target t) = Some pr'"
    and ab: "activeBlocks pr' = insert (Key (Entry t)) (activeBlocks pr)"
    and rq: "requests pr' = requests pr - 1"
    by blast
  from Pop_spec [OF inv] pop have "only_index task_core UNIV (tasks s) (tasks s')"
    by (auto simp: Pop_post_def)
  from only_index_Some' [OF this t(1)] obtain t' where
    t': "tasks s' a = Some t'" "Target t' = Target t" "Key (Entry t') = Key (Entry t)"
    by (auto simp: task_core_def)
  have k: "Key (Entry t) \<in> activeBlocks pr'" using ab by simp
  have sd: "sint (requests pr') = sint (requests pr) - 1"
    if "sint (requests pr) \<noteq> - (2 ^ (LENGTH('w) - 1))"
    using sint_decrement [OF that] rq by simp
  have later: "\<exists>pr2. partners s2 (Target t) = Some pr2 \<and> Key (Entry t) \<in> activeBlocks pr2
               \<and> (\<forall>s3. Done a s2 = Inr s3 \<longrightarrow>
                     (\<exists>pr3. partners s3 (Target t) = Some pr3
                        \<and> activeBlocks pr3 = activeBlocks pr2 - {Key (Entry t)}
                        \<and> active pr3 = active pr2 - 1))"
    if q: "quiet (Target t) (Key (Entry t)) xs s' \<and> run xs s' = Inr s2" for xs s2
  proof -
    from q have q1: "quiet (Target t) (Key (Entry t)) xs s'" and r: "run xs s' = Inr s2"
      by simp_all
    from active_run [OF inv' t'(1) p(2) k q1 r] t' obtain t2 pr2 where
      inv2: "prq_inv s2"
      and t2: "tasks s2 a = Some t2" "Target t2 = Target t" "Key (Entry t2) = Key (Entry t)"
      and pr2: "partners s2 (Target t) = Some pr2" "Key (Entry t) \<in> activeBlocks pr2"
      by auto
    have "\<exists>pr3. partners s3 (Target t) = Some pr3
                        \<and> activeBlocks pr3 = activeBlocks pr2 - {Key (Entry t)}
                        \<and> active pr3 = active pr2 - 1"
      if d: "Done a s2 = Inr s3" for s3
    proof -
      let ?pr = "pr2\<lparr>activeBlocks := activeBlocks pr2 - {Key (Entry t2)}, active := active pr2 - 1\<rparr>"
      have p2: "partners s2 (Target t2) = Some pr2" using pr2 t2 by simp
      from Done_spec [OF inv2 t2(1) p2] d
      have oi: "only_index partner_core UNIV ((partners s2)(Target t2 \<mapsto> ?pr)) (partners s3)"
        by blast
      have "((partners s2)(Target t2 \<mapsto> ?pr)) (Target t) = Some ?pr" using t2 by simp
      from only_index_Some' [OF oi this] t2 show ?thesis
        by (auto simp: partner_core_def)
    qed
    with pr2 show ?thesis by blast
  qed
  from t p k rq sd later
  show "\<exists>t pr pr'. tasks s a = Some t \<and> \<not> trash t
      \<and> partners s (Target t) = Some pr \<and> partners s' (Target t) = Some pr'
      \<and> Key (Entry t) \<in> activeBlocks pr'
      \<and> requests pr' = requests pr - 1
      \<and> (sint (requests pr) \<noteq> - (2 ^ (LENGTH('w) - 1)) \<longrightarrow>
           sint (requests pr') = sint (requests pr) - 1)
      \<and> (\<forall>xs s2. quiet (Target t) (Key (Entry t)) xs s' \<and> run xs s' = Inr s2 \<longrightarrow>
            (\<exists>pr2. partners s2 (Target t) = Some pr2 \<and> Key (Entry t) \<in> activeBlocks pr2
               \<and> (\<forall>s3. Done a s2 = Inr s3 \<longrightarrow>
                     (\<exists>pr3. partners s3 (Target t) = Some pr3
                        \<and> activeBlocks pr3 = activeBlocks pr2 - {Key (Entry t)}
                        \<and> active pr3 = active pr2 - 1))))"
    by blast
qed

theorem Pop_starts_task_witness:
  "\<exists>(s :: 64 prq) s' s2 s3 pr pr' pr2 pr3.
     run [OpPush \<lparr>Key = ''k'', Priority = 1\<rparr> ''A'' 0] newPRQ = Inr s
     \<and> Pop s = Inr (Some 0, s')
     \<and> partners s ''A'' = Some pr \<and> partners s' ''A'' = Some pr'
     \<and> ''k'' \<in> activeBlocks pr' \<and> sint (requests pr) = 1 \<and> sint (requests pr') = 0
     \<and> quiet ''A'' ''k'' [OpPush \<lparr>Key = ''j'', Priority = 1\<rparr> ''A'' 1] s'
     \<and> run [OpPush \<lparr>Key = ''j'', Priority = 1\<rparr> ''A'' 1] s' = Inr s2
     \<and> partners s2 ''A'' = Some pr2 \<and> ''k'' \<in> activeBlocks pr2
     \<and> Done 0 s2 = Inr s3
     \<and> partners s3 ''A'' = Some pr3 \<and> ''k'' \<notin> activeBlocks pr3 \<and> active pr3 = active pr2 - 1"
proof -
  let ?T = "\<lparr>Entry = \<lparr>Key = ''k'', Priority = 1\<rparr>, Target = ''A'', trash = False, created = 0,
             index = 0\<rparr>"
  let ?ops = "[OpPush \<lparr>Key = ''k'', Priority = 1\<rparr> ''A'' 0]"
  let ?xs = "[OpPush \<lparr>Key = ''j'', Priority = 1\<rparr> ''A'' 1]"
  have "\<exists>(s :: 64 prq) s' s2 s3.
     run ?ops newPRQ = Inr s \<and> tasks s 0 = Some ?T
     \<and> (\<exists>pr. partners s ''A'' = Some pr \<and> requests pr = 1)
     \<and> Pop s = Inr (Some 0, s')
     \<and> quiet ''A'' ''k'' ?xs s' \<and> run ?xs s' = Inr s2 \<and> Done 0 s2 = Inr s3"
    by (simp add: prq_eval fires_def)
  then obtain s s' s2 s3 :: "64 prq" and pr0 where
    s: "run ?ops newPRQ = Inr s" "tasks s 0 = Some ?T"
    and pr0: "partners s ''A'' = Some pr0" "requests pr0 = 1"
    and s': "Pop s = Inr (Some 0, s')"
    and s2: "quiet ''A'' ''k'' ?xs s'" "run ?xs s' = Inr s2"
    and s3: "Done 0 s2 = Inr s3"
    by blast
  from Pop_starts_task [where ops = ?ops and s = s and a = 0 and s' = s'] s(1) s'
  obtain t pr pr' where
    t: "tasks s 0 = Some t"
    and p: "partners s (Target t) = Some pr" "partners s' (Target t) = Some pr'"
    and k: "Key (Entry t) \<in> activeBlocks pr'"
    and rq: "sint (requests pr) \<noteq> - (2 ^ (LENGTH(64) - 1)) \<longrightarrow>
               sint (requests pr') = sint (requests pr) - 1"
    and later: "\<forall>xs s2. quiet (Target t) (Key (Entry t)) xs s' \<and> run xs s' = Inr s2 \<longrightarrow>
            (\<exists>pr2. partners s2 (Target t) = Some pr2 \<and> Key (Entry t) \<in> activeBlocks pr2
               \<and> (\<forall>s3. Done 0 s2 = Inr s3 \<longrightarrow>
                     (\<exists>pr3. partners s3 (Target t) = Some pr3
                        \<and> activeBlocks pr3 = activeBlocks pr2 - {Key (Entry t)}
                        \<and> active pr3 = active pr2 - 1)))"
    by blast
  from t s(2) have te: "t = ?T" by simp
  from te p pr0 have e: "pr = pr0" by simp
  from e pr0 have r1: "sint (requests pr) = 1" by simp
  with rq have r0: "sint (requests pr') = 0" by simp
  have tk: "Target t = ''A''" "Key (Entry t) = ''k''" using te by simp_all
  note later' = later [unfolded tk]
  from later' s2 obtain pr2 where
    pr2: "partners s2 ''A'' = Some pr2" "''k'' \<in> activeBlocks pr2"
    and d: "\<forall>s3. Done 0 s2 = Inr s3 \<longrightarrow>
                     (\<exists>pr3. partners s3 ''A'' = Some pr3
                        \<and> activeBlocks pr3 = activeBlocks pr2 - {''k''}
                        \<and> active pr3 = active pr2 - 1)"
    by blast
  from d s3 obtain pr3 where
    pr3: "partners s3 ''A'' = Some pr3" "activeBlocks pr3 = activeBlocks pr2 - {''k''}"
      "active pr3 = active pr2 - 1"
    by blast
  from pr3(2) have "''k'' \<notin> activeBlocks pr3" by simp
  with s(1) s' p [unfolded tk] k [unfolded tk] r1 r0 s2 pr2 s3 pr3 show ?thesis
    by blast
qed

section \<open>The ranking of the partners\<close>

text \<open>
  \<^verbatim>\<open>partnerCompare\<close>: a partner with no requests is before no partner, a partner with
  requests is before every partner with none, and of two partners with requests the
  one with the smaller active counter is first.
\<close>

lemma partnerCompare_ranks:
  "(requests pa = 0 \<longrightarrow> \<not> partnerCompare pa pb)
   \<and> (requests pa \<noteq> 0 \<and> requests pb = 0 \<longrightarrow> partnerCompare pa pb)
   \<and> (requests pa \<noteq> 0 \<and> requests pb \<noteq> 0 \<longrightarrow>
        partnerCompare pa pb = (sint (active pa) < sint (active pb)))"
  by (simp add: partnerCompare_def)

text \<open>\<^verbatim>\<open>Pop\<close> returns nil when every task on the queues is trash.\<close>

lemma Pop_none:
  assumes inv: "prq_inv s"
    and tr: "\<And>a t. a \<in> set (queued s) \<Longrightarrow> tasks s a = Some t \<Longrightarrow> trash t"
  shows "\<exists>s'. Pop s = Inr (None, s')"
proof -
  from Pop_spec [OF inv] obtain out s' where pop: "Pop s = Inr (out, s')"
    and post: "Pop_post s out s'" by blast
  have "out = None"
  proof (cases out)
    case None
    then show ?thesis .
  next
    case (Some a)
    from Pop_started [OF inv pop [unfolded Some]] obtain t pr where
      t: "tasks s a = Some t" "\<not> trash t" "a \<in> set (taskQueue pr)"
        "partners s (Target t) = Some pr"
      by blast
    then have "a \<in> set (queued s)" using queued_iff [OF inv, of a] by blast
    from tr [OF this t(1)] t(2) show ?thesis by simp
  qed
  with pop show ?thesis by blast
qed

text \<open>
  Claim C2. The comparator ranks the partners as the claim says (\<open>partnerCompare_ranks\<close>)
  and \<^verbatim>\<open>Pop\<close> returns nil when no partner has a live task (\<open>Pop_none\<close>). But
  \<^verbatim>\<open>Pop\<close> can return a task of a peer whose \<^verbatim>\<open>requests\<close> is \<open>0\<close> while another peer
  has \<^verbatim>\<open>requests\<close> greater than \<open>0\<close>: \<^verbatim>\<open>Remove\<close> decrements \<^verbatim>\<open>requests\<close> again for a
  task that is trash already, and does not update the outer queue. After three calls of
  \<^verbatim>\<open>Push\<close> (peer \<open>A\<close> for \<open>k1\<close> and \<open>k2\<close>, peer \<open>B\<close> for \<open>k3\<close>) and two calls of
  \<^verbatim>\<open>Remove\<close> of \<open>k1\<close> for \<open>A\<close>, \<^verbatim>\<open>requests\<close> is \<open>0\<close> for \<open>A\<close> and \<open>1\<close> for \<open>B\<close>, and
  \<^verbatim>\<open>Pop\<close> returns the task of \<open>A\<close> for \<open>k2\<close>.
\<close>

theorem Pop_serves_peer_without_requests:
  "\<exists>(s :: 64 prq) s' pa pb.
     run [OpPush \<lparr>Key = ''k1'', Priority = 1\<rparr> ''A'' 0,
          OpPush \<lparr>Key = ''k2'', Priority = 2\<rparr> ''A'' 1,
          OpPush \<lparr>Key = ''k3'', Priority = 1\<rparr> ''B'' 2,
          OpRemove ''k1'' ''A'', OpRemove ''k1'' ''A''] newPRQ = Inr s
     \<and> partners s ''A'' = Some pa \<and> requests pa = 0
     \<and> partners s ''B'' = Some pb \<and> requests pb = 1 \<and> sint (requests pb) = 1
     \<and> Pop s = Inr (Some 1, s')
     \<and> map_option task_core (tasks s 1) = Some (\<lparr>Key = ''k2'', Priority = 2\<rparr>, ''A'', False, 1)"
  by (simp add: prq_eval task_core_def)

section \<open>The active counter of a partner\<close>

text \<open>
  Calls of \<^verbatim>\<open>StartTask\<close> and \<^verbatim>\<open>TaskDone\<close> on one partner, in the order they take
  the partner's lock. \<open>matched n cs\<close>: with \<open>n\<close> tasks started and not done, no
  \<^verbatim>\<open>TaskDone\<close> of \<open>cs\<close> comes without a \<^verbatim>\<open>StartTask\<close> before it that it finishes.
  \<open>outstanding n cs\<close> is the largest number of tasks started and not done that is
  reached along \<open>cs\<close>. The counter is a Go \<^verbatim>\<open>int\<close>, of 32 or of 64 bits: \<^verbatim>\<open>p.active++\<close>
  and \<^verbatim>\<open>p.active--\<close> wrap around, and the test \<^verbatim>\<open>p.active < 0\<close> reads the wrapped value.
\<close>

datatype partner_call = CallStartTask key | CallTaskDone key

fun partner_run ::
  "partner_call list \<Rightarrow> 'w::len activePartner \<Rightarrow> error + 'w activePartner" where
  "partner_run [] p = Inr p"
| "partner_run (CallStartTask k # cs) p = partner_run cs (StartTask k p)"
| "partner_run (CallTaskDone k # cs) p =
     (case TaskDone k p of Inl e \<Rightarrow> Inl e | Inr p' \<Rightarrow> partner_run cs p')"

fun matched :: "nat \<Rightarrow> partner_call list \<Rightarrow> bool" where
  "matched n [] = True"
| "matched n (CallStartTask k # cs) = matched (Suc n) cs"
| "matched n (CallTaskDone k # cs) = (0 < n \<and> matched (n - 1) cs)"

fun outstanding :: "nat \<Rightarrow> partner_call list \<Rightarrow> nat" where
  "outstanding n [] = n"
| "outstanding n (CallStartTask k # cs) = max n (outstanding (Suc n) cs)"
| "outstanding n (CallTaskDone k # cs) = max n (outstanding (n - 1) cs)"

lemma matched_take: "matched n cs \<Longrightarrow> matched n (take m cs)"
proof (induction n cs arbitrary: m rule: matched.induct)
  case (1 n)
  then show ?case by simp
next
  case (2 n k cs)
  then show ?case by (cases m) auto
next
  case (3 n k cs)
  then show ?case by (cases m) auto
qed

lemma outstanding_ge: "n \<le> outstanding n cs"
  by (induction n cs rule: outstanding.induct) auto

lemma outstanding_take: "outstanding n (take m cs) \<le> outstanding n cs"
proof (induction n cs arbitrary: m rule: outstanding.induct)
  case (1 n)
  then show ?case by simp
next
  case (2 n k cs)
  show ?case
  proof (cases m)
    case 0
    then show ?thesis by simp
  next
    case (Suc m')
    have "outstanding (Suc n) (take m' cs) \<le> outstanding (Suc n) cs" by (rule 2)
    then show ?thesis using Suc by auto
  qed
next
  case (3 n k cs)
  show ?case
  proof (cases m)
    case 0
    then show ?thesis by simp
  next
    case (Suc m')
    have "outstanding (n - 1) (take m' cs) \<le> outstanding (n - 1) cs" by (rule 3)
    then show ?thesis using Suc by auto
  qed
qed

lemma partner_run_matched:
  fixes p :: "'w::len activePartner"
  shows "matched n cs \<Longrightarrow> outstanding n cs < 2 ^ (LENGTH('w) - 1) \<Longrightarrow> active p = of_nat n \<Longrightarrow>
     \<exists>p'. partner_run cs p = Inr p' \<and> 0 \<le> sint (active p')"
proof (induction n cs arbitrary: p rule: matched.induct)
  case (1 n)
  then show ?case by (simp add: sint_counter)
next
  case (2 n k cs)
  have a: "active (StartTask k p) = of_nat (Suc n)"
    using 2(4) by (simp add: StartTask_def)
  have b: "outstanding (Suc n) cs < 2 ^ (LENGTH('w) - 1)"
    using 2(3) by simp
  from 2(1) [OF _ b a] 2(2) show ?case by simp
next
  case (3 n k cs)
  then have pos: "0 < n" and rest: "matched (n - 1) cs" by auto
  have b: "outstanding (n - 1) cs < 2 ^ (LENGTH('w) - 1)"
    using 3(3) by simp
  then have lt: "n - 1 < 2 ^ (LENGTH('w) - 1)"
    using outstanding_ge [of "n - 1" cs] by simp
  have dec: "active p - 1 = of_nat (n - 1)"
    using pos 3(4) by (simp add: of_nat_diff)
  obtain p' where p': "TaskDone k p = Inr p'" "active p' = of_nat (n - 1)"
    using dec sint_counter [OF lt] by (auto simp: TaskDone_def Let_def)
  from 3(1) [OF rest b p'(2)] p'(1) show ?case by simp
qed

text \<open>
  What the wrap-around does at the two ends of the range: a \<^verbatim>\<open>TaskDone\<close> on the least
  value of the counter leaves the greatest one and does not panic, and the
  \<^verbatim>\<open>StartTask\<close> on the greatest value leaves the least one, which is negative.
\<close>

lemma word_double_top: "2 ^ (LENGTH('w::len) - 1) + 2 ^ (LENGTH('w) - 1) = (0 :: 'w word)"
proof -
  have "2 ^ (LENGTH('w) - 1) + 2 ^ (LENGTH('w) - 1) = (2 ^ Suc (LENGTH('w) - 1) :: 'w word)"
    by (simp only: power_Suc mult_2)
  also have "Suc (LENGTH('w) - 1) = LENGTH('w)" by simp
  finally show ?thesis by (simp only: word_exp_length_eq_0)
qed

lemma word_min_neg: "- (2 ^ (LENGTH('w::len) - 1)) = (2 ^ (LENGTH('w) - 1) :: 'w word)"
  using word_double_top [where 'w = 'w] by (rule minus_unique)

lemma TaskDone_wraps:
  fixes p :: "'w::len activePartner"
  assumes "active p = - (2 ^ (LENGTH('w) - 1))"
  shows "TaskDone k p =
           Inr (p\<lparr>activeBlocks := activeBlocks p - {k}, active := 2 ^ (LENGTH('w) - 1) - 1\<rparr>)"
proof -
  have a: "active p = 2 ^ (LENGTH('w) - 1)"
    using assms by (simp only: word_min_neg)
  have "(of_nat (2 ^ (LENGTH('w) - 1) - 1) :: 'w word) = 2 ^ (LENGTH('w) - 1) - 1"
    by (simp add: of_nat_diff)
  moreover have "sint (of_nat (2 ^ (LENGTH('w) - 1) - 1) :: 'w word)
                   = int (2 ^ (LENGTH('w) - 1) - 1)"
    by (rule sint_counter) simp
  ultimately have "0 \<le> sint (2 ^ (LENGTH('w) - 1) - 1 :: 'w word)" by simp
  then show ?thesis
    by (simp add: TaskDone_def Let_def a)
qed

lemma StartTask_wraps:
  fixes p :: "'w::len activePartner"
  assumes "active p = 2 ^ (LENGTH('w) - 1) - 1"
  shows "active (StartTask k p) = - (2 ^ (LENGTH('w) - 1))"
    and "sint (active (StartTask k p)) < 0"
proof -
  have a: "active (StartTask k p) = 2 ^ (LENGTH('w) - 1)"
    using assms by (simp add: StartTask_def)
  then show "active (StartTask k p) = - (2 ^ (LENGTH('w) - 1))"
    by (simp only: word_min_neg)
  have "bit (2 ^ (LENGTH('w) - 1) :: 'w word) (LENGTH('w) - Suc 0)"
    by (simp add: bit_exp_iff)
  then show "sint (active (StartTask k p)) < 0"
    by (simp only: a bit_last_iff)
qed

text \<open>
  Claim C8. For every partner, a \<^verbatim>\<open>TaskDone\<close> that makes the active counter negative,
  as the program reads it after \<^verbatim>\<open>p.active--\<close> has wrapped around, panics, and any
  other \<^verbatim>\<open>TaskDone\<close> removes the key and decrements the counter. When every
  \<^verbatim>\<open>TaskDone\<close> follows a \<^verbatim>\<open>StartTask\<close> of its own, and the tasks started and not
  done stay within the positive range of the counter (fewer than \<open>2 ^ 31\<close> of them
  where a Go \<^verbatim>\<open>int\<close> has 32 bits, fewer than \<open>2 ^ 63\<close> where it has 64), no call
  panics and the counter is never negative: this holds after every prefix
  \<open>take m cs\<close> of the calls on a new partner.
\<close>

theorem TaskDone_traps_on_negative:
  fixes p :: "'w::len activePartner"
  shows
  "(sint (active p - 1) < 0 \<longrightarrow>
      TaskDone k p = Inl (Panic ''more tasks finished than started!''))
   \<and> (0 \<le> sint (active p - 1) \<longrightarrow>
        TaskDone k p = Inr (p\<lparr>activeBlocks := activeBlocks p - {k}, active := active p - 1\<rparr>))
   \<and> (matched 0 cs \<and> outstanding 0 cs < 2 ^ (LENGTH('w) - 1) \<longrightarrow>
        (\<exists>p'. partner_run (take m cs) (newActivePartner :: 'w activePartner) = Inr p'
              \<and> 0 \<le> sint (active p')))"
proof (intro conjI impI)
  assume "sint (active p - 1) < 0"
  then show "TaskDone k p = Inl (Panic ''more tasks finished than started!'')"
    by (simp add: TaskDone_def Let_def)
next
  assume "0 \<le> sint (active p - 1)"
  then show "TaskDone k p = Inr (p\<lparr>activeBlocks := activeBlocks p - {k}, active := active p - 1\<rparr>)"
    by (simp add: TaskDone_def Let_def)
next
  assume a: "matched 0 cs \<and> outstanding 0 cs < 2 ^ (LENGTH('w) - 1)"
  then have "matched 0 (take m cs)" by (simp add: matched_take)
  moreover have "outstanding 0 (take m cs) < 2 ^ (LENGTH('w) - 1)"
    using a outstanding_take [of 0 m cs] by simp
  ultimately show "\<exists>p'. partner_run (take m cs) (newActivePartner :: 'w activePartner) = Inr p'
                        \<and> 0 \<le> sint (active p')"
    by (rule partner_run_matched) (simp add: newActivePartner_def)
qed

theorem TaskDone_traps_on_negative_witness:
  "TaskDone ''k'' (newActivePartner :: 64 activePartner)
     = Inl (Panic ''more tasks finished than started!'')
   \<and> TaskDone ''k'' (StartTask ''k'' newActivePartner) = Inr (newActivePartner :: 32 activePartner)
   \<and> (\<exists>p'. partner_run (take 2 [CallStartTask ''k'', CallTaskDone ''k'', CallStartTask ''j''])
              (newActivePartner :: 64 activePartner) = Inr p' \<and> 0 \<le> sint (active p'))"
  using TaskDone_traps_on_negative
          [of "newActivePartner :: 64 activePartner" "''k''"
              "[CallStartTask ''k'', CallTaskDone ''k'', CallStartTask ''j'']" 2]
        TaskDone_traps_on_negative
          [of "StartTask ''k'' (newActivePartner :: 32 activePartner)" "''k''" "[]" 0]
  by (simp add: newActivePartner_def StartTask_def)

section \<open>The client worker\<close>

text \<open>
  \<^verbatim>\<open>kMaxPriority = math.MaxInt32\<close>, an untyped constant; in \<^verbatim>\<open>kMaxPriority-i\<close> it is
  a Go \<^verbatim>\<open>int\<close>, as the index \<^verbatim>\<open>i\<close> of the loop is.
\<close>

definition kMaxPriority :: "'w::len word" where
  "kMaxPriority = 2 ^ 31 - 1"

text \<open>
  The loop \<^verbatim>\<open>for i, k := range keys { add(k, kMaxPriority-i) }\<close> of \<^verbatim>\<open>clientWorker\<close>
  (with \<^verbatim>\<open>bs.wantlist.Add\<close>) and of \<^verbatim>\<open>wantNewBlocks\<close> (with \<^verbatim>\<open>message.AddEntry\<close>),
  from index \<open>i\<close> on. The packages \<^verbatim>\<open>wantlist\<close> and \<^verbatim>\<open>message\<close> are not among the
  sources: \<open>add\<close> is a parameter, and \<open>s\<close> the wantlist or message it changes.
\<close>

fun wantAll :: "(key \<Rightarrow> 'w::len word \<Rightarrow> 's \<Rightarrow> 's) \<Rightarrow> nat \<Rightarrow> key list \<Rightarrow> 's \<Rightarrow> 's" where
  "wantAll add i [] s = s"
| "wantAll add i (k # ks) s = wantAll add (Suc i) ks (add k (kMaxPriority - of_nat i) s)"

text \<open>
  \<^verbatim>\<open>clientWorker\<close> on a batch request: a request for no keys is skipped, for the keys
  of any other the worker calls \<^verbatim>\<open>bs.wantlist.Add\<close>. \<^verbatim>\<open>wantNewBlocks\<close> returns at
  once on no keys, and broadcasts the message it has added the entries to otherwise;
  \<open>msg\<close> is the new message with \<^verbatim>\<open>SetFull(false)\<close>, the result the message
  broadcast.
\<close>

definition clientWorker_wants ::
  "(key \<Rightarrow> 'w::len word \<Rightarrow> 's \<Rightarrow> 's) \<Rightarrow> key list \<Rightarrow> 's \<Rightarrow> 's" where
  "clientWorker_wants Add keys wl = (if length keys = 0 then wl else wantAll Add 0 keys wl)"

definition wantNewBlocks ::
  "(key \<Rightarrow> 'w::len word \<Rightarrow> 'm \<Rightarrow> 'm) \<Rightarrow> key list \<Rightarrow> 'm \<Rightarrow> 'm option" where
  "wantNewBlocks AddEntry bkeys msg =
     (if length bkeys < 1 then None else Some (wantAll AddEntry 0 bkeys msg))"

text \<open>The calls of \<open>add\<close>, in their order: \<open>add\<close> that records its arguments.\<close>

definition record_call :: "key \<Rightarrow> 'w::len word \<Rightarrow> (key \<times> 'w word) list \<Rightarrow> (key \<times> 'w word) list" where
  "record_call k p cs = cs @ [(k, p)]"

lemma wantAll_calls:
  "wantAll record_call i ks cs
     = cs @ map (\<lambda>j. (ks ! j, kMaxPriority - of_nat (i + j))) [0..<length ks]"
proof (induction ks arbitrary: i cs)
  case Nil
  then show ?case by simp
next
  case (Cons k ks)
  have e: "map (\<lambda>j. ((k # ks) ! j, kMaxPriority - of_nat (i + j) :: 'a word)) [0..<length (k # ks)]
          = (k, kMaxPriority - of_nat i)
            # map (\<lambda>j. (ks ! j, kMaxPriority - of_nat (Suc i + j))) [0..<length ks]"
    by (simp only: length_Cons map_upt_Suc) simp
  have "wantAll record_call i (k # ks) cs
          = wantAll record_call (Suc i) ks (record_call k (kMaxPriority - of_nat i) cs)"
    by simp
  also have "\<dots> = record_call k (kMaxPriority - of_nat i) cs
                     @ map (\<lambda>j. (ks ! j, kMaxPriority - of_nat (Suc i + j))) [0..<length ks]"
    by (rule Cons.IH)
  also have "\<dots> = cs @ ((k, kMaxPriority - of_nat i)
                     # map (\<lambda>j. (ks ! j, kMaxPriority - of_nat (Suc i + j))) [0..<length ks])"
    by (simp add: record_call_def)
  also have "\<dots> = cs @ map (\<lambda>j. ((k # ks) ! j, kMaxPriority - of_nat (i + j))) [0..<length (k # ks)]"
    by (simp only: e)
  finally show ?case .
qed

lemma wantAll_last:
  "ks \<noteq> [] \<Longrightarrow>
     last (wantAll record_call i ks cs) = (last ks, kMaxPriority - of_nat (i + length ks - 1))"
proof (induction ks arbitrary: i cs)
  case Nil
  then show ?case by simp
next
  case (Cons k ks)
  show ?case
  proof (cases "ks = []")
    case True
    then show ?thesis by (simp add: record_call_def)
  next
    case False
    from Cons.IH [OF False, of "Suc i" "record_call k (kMaxPriority - of_nat i) cs"] False
    show ?thesis by simp
  qed
qed

text \<open>
  The priority at index \<open>i\<close> as a number. A Go \<^verbatim>\<open>int\<close> has at least 32 bits, and the
  index of a slice is less than \<open>2 ^ (LENGTH('w) - 1)\<close>.
\<close>

lemma sint_kMaxPriority:
  assumes "32 \<le> LENGTH('w::len)"
  shows "sint (kMaxPriority :: 'w word) = 2 ^ 31 - 1"
proof -
  have "(2::nat) ^ 31 \<le> 2 ^ (LENGTH('w) - 1)"
    using assms by (intro power_increasing) simp_all
  then have "(2::nat) ^ 31 - 1 < 2 ^ (LENGTH('w) - 1)" by simp
  from sint_counter [OF this] have "sint (of_nat (2 ^ 31 - 1) :: 'w word) = int (2 ^ 31 - 1)" .
  moreover have "(of_nat (2 ^ 31 - 1) :: 'w word) = kMaxPriority"
    by (simp add: kMaxPriority_def)
  ultimately have "sint (kMaxPriority :: 'w word) = int (2 ^ 31 - 1)" by (simp only:)
  also have "\<dots> = 2 ^ 31 - 1" by simp
  finally show ?thesis .
qed

lemma sint_priority:
  assumes w: "32 \<le> LENGTH('w::len)" and i: "i < 2 ^ (LENGTH('w) - 1)"
  shows "sint (kMaxPriority - of_nat i :: 'w word) = 2 ^ 31 - 1 - int i"
proof -
  define X :: int where "X = 2 ^ (LENGTH('w) - 1)"
  have p: "(2::int) ^ 31 \<le> X"
    unfolding X_def using w by (intro power_increasing) simp_all
  have "int i < int (2 ^ (LENGTH('w) - 1))"
    using i by (simp only: of_nat_less_iff)
  then have ii: "int i < X" by (simp add: X_def)
  have "sint (kMaxPriority - of_nat i :: 'w word)
          = signed_take_bit (LENGTH('w) - 1) (sint (kMaxPriority :: 'w word) - sint (of_nat i :: 'w word))"
    by (rule sint_word_diff)
  also have "\<dots> = signed_take_bit (LENGTH('w) - 1) (2 ^ 31 - 1 - int i)"
    by (simp only: sint_kMaxPriority [OF w] sint_counter [OF i])
  also have "\<dots> = 2 ^ 31 - 1 - int i"
  proof (rule signed_take_bit_int_eq_self)
    have "- X \<le> 2 ^ 31 - 1 - int i" using ii by simp
    then show "- (2 ^ (LENGTH('w) - 1)) \<le> 2 ^ 31 - 1 - int i" by (simp only: X_def)
    have "2 ^ 31 - 1 - int i < X" using p by simp
    then show "2 ^ 31 - 1 - int i < 2 ^ (LENGTH('w) - 1)" by (simp only: X_def)
  qed
  finally show ?thesis .
qed

text \<open>
  Claim C4. For a batch of keys, of a length that a Go slice can have, the client
  worker calls \<^verbatim>\<open>bs.wantlist.Add\<close>, and \<^verbatim>\<open>wantNewBlocks\<close> calls \<^verbatim>\<open>message.AddEntry\<close>,
  once for every key in the order of the batch, the key at index \<open>i\<close> with the
  priority \<^verbatim>\<open>kMaxPriority-i\<close>. As a number that priority is \<open>2 ^ 31 - 1 - i\<close>: the
  priorities are not saturated, and the priority is at least \<open>0\<close> only for the
  indices up to \<open>2 ^ 31 - 1\<close>.
\<close>

theorem priorities_by_index:
  "32 \<le> LENGTH('w::len) \<and> length keys \<le> 2 ^ (LENGTH('w) - 1) \<longrightarrow>
     clientWorker_wants record_call keys []
       = map (\<lambda>i. (keys ! i, kMaxPriority - of_nat i :: 'w word)) [0..<length keys]
     \<and> (keys \<noteq> [] \<longrightarrow>
          wantNewBlocks record_call keys []
            = Some (map (\<lambda>i. (keys ! i, kMaxPriority - of_nat i :: 'w word)) [0..<length keys]))
     \<and> (\<forall>i < length keys.
          sint (kMaxPriority - of_nat i :: 'w word) = 2 ^ 31 - 1 - int i
          \<and> (0 \<le> sint (kMaxPriority - of_nat i :: 'w word)) = (i \<le> 2 ^ 31 - 1))"
proof (intro impI conjI allI)
  assume h: "32 \<le> LENGTH('w) \<and> length keys \<le> 2 ^ (LENGTH('w) - 1)"
  show "clientWorker_wants record_call keys []
          = map (\<lambda>i. (keys ! i, kMaxPriority - of_nat i :: 'w word)) [0..<length keys]"
    by (simp add: clientWorker_wants_def wantAll_calls)
  show "wantNewBlocks record_call keys []
          = Some (map (\<lambda>i. (keys ! i, kMaxPriority - of_nat i :: 'w word)) [0..<length keys])"
    if "keys \<noteq> []"
    using that by (simp add: wantNewBlocks_def wantAll_calls)
  fix i assume "i < length keys"
  with h have i: "i < 2 ^ (LENGTH('w) - 1)" by simp
  from h have w: "32 \<le> LENGTH('w)" by simp
  show e: "sint (kMaxPriority - of_nat i :: 'w word) = 2 ^ 31 - 1 - int i"
    using w i by (rule sint_priority)
  have "(0 \<le> (2::int) ^ 31 - 1 - int i) = (int i \<le> 2 ^ 31 - 1)" by auto
  also have "\<dots> = (int i \<le> int (2 ^ 31 - 1))" by simp
  also have "\<dots> = (i \<le> 2 ^ 31 - 1)" by (simp only: of_nat_le_iff)
  finally show "(0 \<le> sint (kMaxPriority - of_nat i :: 'w word)) = (i \<le> 2 ^ 31 - 1)"
    by (simp only: e)
qed

theorem priorities_by_index_witness:
  "clientWorker_wants record_call [''a'', ''b'', ''c''] ([] :: (key \<times> 64 word) list)
     = [(''a'', 2147483647), (''b'', 2147483646), (''c'', 2147483645)]
   \<and> wantNewBlocks record_call [''a'', ''b'', ''c''] ([] :: (key \<times> 32 word) list)
       = Some [(''a'', 2147483647), (''b'', 2147483646), (''c'', 2147483645)]
   \<and> sint (kMaxPriority - of_nat 2 :: 32 word) = 2147483645"
  using priorities_by_index [where 'w = 64 and keys = "[''a'', ''b'', ''c'']"]
        priorities_by_index [where 'w = 32 and keys = "[''a'', ''b'', ''c'']"]
  by (simp add: kMaxPriority_def)

text \<open>
  On a batch of \<open>2 ^ 31 + 1\<close> keys, where a Go \<^verbatim>\<open>int\<close> has 64 bits, the last key is
  added with the priority \<open>- 1\<close>.
\<close>

theorem priority_below_zero:
  "sint (snd (last (clientWorker_wants record_call (replicate (2 ^ 31 + 1) ''k'')
                      ([] :: (key \<times> 64 word) list)))) = - 1"
proof -
  let ?ks = "replicate (2 ^ 31 + 1) ''k''"
  have ne: "?ks \<noteq> []" by (simp only: replicate_empty)
  have len: "length ?ks = 2 ^ 31 + 1" by (simp only: length_replicate)
  have nz: "(2::nat) ^ 31 + 1 \<noteq> 0" by simp
  have "clientWorker_wants record_call ?ks ([] :: (key \<times> 64 word) list)
          = wantAll record_call 0 ?ks []"
    by (simp only: clientWorker_wants_def len nz if_False)
  also have "last \<dots> = (last ?ks, kMaxPriority - of_nat (0 + length ?ks - 1))"
    using ne by (rule wantAll_last)
  finally have "snd (last (clientWorker_wants record_call ?ks ([] :: (key \<times> 64 word) list)))
                  = kMaxPriority - of_nat (0 + length ?ks - 1)"
    by (simp only: snd_conv)
  also have "\<dots> = (kMaxPriority - of_nat (2 ^ 31) :: 64 word)"
    by (simp only: len) simp
  also have "\<dots> = - 1" by (simp add: kMaxPriority_def)
  finally show ?thesis by (simp only: sint_n1)
qed

end
